theory Spec2Isabelle
  imports Complex_Main "HOL-Library.Log_Nat" "HOL-Library.Char_ord"
begin

section \<open>The double type of the platform\<close>

text \<open>
  The engine computes with the C++ type \<open>double\<close>. It is modelled as IEEE 754 binary64
  in the default rounding mode (to nearest, ties to even): a finite value is a sign and a
  non-negative magnitude, so that the two zeros are distinct; the sign of a NaN is not
  kept. Every operation computes the exact rational result and rounds it once.
\<close>

datatype double = Finite bool rat | Infinity bool | NaN

definition pow2 :: "int \<Rightarrow> rat" where
  "pow2 k = (if 0 \<le> k then 2 ^ nat k else 1 / 2 ^ nat (- k))"

text \<open>The binary exponent \<open>\<lfloor>log\<^sub>2 x\<rfloor>\<close> of a positive rational.\<close>

definition ilog2 :: "rat \<Rightarrow> int" where
  "ilog2 x = (if 1 \<le> x then bitlen \<lfloor>x\<rfloor> - 1 else - bitlen (\<lceil>1 / x\<rceil> - 1))"

text \<open>The nearest integer, a tie going to the even neighbour.\<close>

definition round_even :: "rat \<Rightarrow> int" where
  "round_even x =
     (let f = \<lfloor>x\<rfloor>; d = x - of_int f
      in if d < 1 / 2 then f
         else if 1 / 2 < d then f + 1
         else if even f then f else f + 1)"

text \<open>
  Rounding a non-negative magnitude to binary64: 53 significant bits, the exponent
  bounded below by \<open>-1022\<close> (gradual underflow, down to a zero that keeps the sign) and
  overflow to infinity from \<open>2\<^sup>1\<^sup>0\<^sup>2\<^sup>4\<close> on, also when the rounding itself reaches it.
\<close>

definition round_double :: "bool \<Rightarrow> rat \<Rightarrow> double" where
  "round_double s x =
     (if x = 0 then Finite s 0
      else if pow2 1024 \<le> x then Infinity s
      else
        let e = max (ilog2 x) (- 1022);
            q = pow2 (e - 52);
            y = of_int (round_even (x / q)) * q
        in if pow2 1024 \<le> y then Infinity s else Finite s y)"

fun dneg :: "double \<Rightarrow> double" where
  "dneg (Finite s m) = Finite (\<not> s) m"
| "dneg (Infinity s) = Infinity (\<not> s)"
| "dneg NaN = NaN"

definition signed :: "bool \<Rightarrow> rat \<Rightarrow> rat" where
  "signed s m = (if s then - m else m)"

fun dadd :: "double \<Rightarrow> double \<Rightarrow> double" where
  "dadd NaN y = NaN"
| "dadd x NaN = NaN"
| "dadd (Infinity s) (Infinity t) = (if s = t then Infinity s else NaN)"
| "dadd (Infinity s) (Finite t n) = Infinity s"
| "dadd (Finite s m) (Infinity t) = Infinity t"
| "dadd (Finite s m) (Finite t n) =
     (let r = signed s m + signed t n
      in if r = 0 then Finite (s \<and> t) 0 else round_double (r < 0) \<bar>r\<bar>)"

definition dsub :: "double \<Rightarrow> double \<Rightarrow> double" where
  "dsub x y = dadd x (dneg y)"

fun dmul :: "double \<Rightarrow> double \<Rightarrow> double" where
  "dmul NaN y = NaN"
| "dmul x NaN = NaN"
| "dmul (Infinity s) (Infinity t) = Infinity (s \<noteq> t)"
| "dmul (Infinity s) (Finite t n) = (if n = 0 then NaN else Infinity (s \<noteq> t))"
| "dmul (Finite s m) (Infinity t) = (if m = 0 then NaN else Infinity (s \<noteq> t))"
| "dmul (Finite s m) (Finite t n) = round_double (s \<noteq> t) (m * n)"

fun ddiv :: "double \<Rightarrow> double \<Rightarrow> double" where
  "ddiv NaN y = NaN"
| "ddiv x NaN = NaN"
| "ddiv (Infinity s) (Infinity t) = NaN"
| "ddiv (Infinity s) (Finite t n) = Infinity (s \<noteq> t)"
| "ddiv (Finite s m) (Infinity t) = Finite (s \<noteq> t) 0"
| "ddiv (Finite s m) (Finite t n) =
     (if n = 0 then (if m = 0 then NaN else Infinity (s \<noteq> t))
      else round_double (s \<noteq> t) (m / n))"

text \<open>\<open>std::isnormal\<close>: finite, not zero and not subnormal.\<close>

fun isnormal :: "double \<Rightarrow> bool" where
  "isnormal (Finite s m) = (pow2 (- 1022) \<le> m)"
| "isnormal (Infinity s) = False"
| "isnormal NaN = False"

fun is_zero :: "double \<Rightarrow> bool" where
  "is_zero (Finite s m) = (m = 0)"
| "is_zero (Infinity s) = False"
| "is_zero NaN = False"

fun is_infinite :: "double \<Rightarrow> bool" where
  "is_infinite (Infinity s) = True"
| "is_infinite (Finite s m) = False"
| "is_infinite NaN = False"

text \<open>
  \<open>std::strtod\<close> on a buffer of decimal digits and points, the only characters that
  \<open>tokenize\<close> puts into the buffer it converts: the subject sequence is the longest prefix
  of digits with at most one point that holds a digit; the result is its value, rounded
  correctly, and the number of characters read. Without a digit nothing is converted:
  the result is zero and nothing is read. No sign, exponent, hexadecimal or special form
  can occur in such a buffer, and none is modelled.
\<close>

definition is_digit :: "char \<Rightarrow> bool" where
  "is_digit c = (CHR ''0'' \<le> c \<and> c \<le> CHR ''9'')"

definition digit_value :: "char \<Rightarrow> nat" where
  "digit_value c = of_char c - of_char CHR ''0''"

fun decimal :: "nat \<Rightarrow> string \<Rightarrow> nat" where
  "decimal acc [] = acc"
| "decimal acc (c # cs) = decimal (10 * acc + digit_value c) cs"

definition strtod :: "string \<Rightarrow> double \<times> nat" where
  "strtod s =
     (let ip = takeWhile is_digit s;
          r = dropWhile is_digit s;
          has_point = (case r of [] \<Rightarrow> False | c # cs \<Rightarrow> c = CHR ''.'');
          fp = (if has_point then takeWhile is_digit (tl r) else [])
      in if ip = [] \<and> fp = [] then (Finite False 0, 0)
         else (round_double False (of_nat (decimal 0 (ip @ fp)) / 10 ^ length fp),
               length ip + (if has_point then 1 + length fp else 0)))"

section \<open>Tokens, expressions and errors\<close>

text \<open>
  The enumerators of \<open>token_type\<close>, \<open>_operator\<close> and \<open>priority\<close> carry a prefix here,
  since \<open>plus\<close>, \<open>minus\<close> and \<open>divide\<close> are constants of HOL.
\<close>

datatype token_type =
  T_number | T_opening_parenthesis | T_closing_parenthesis
  | T_multiply | T_divide | T_plus | T_minus

datatype operator = O_multiply | O_divide | O_plus | O_minus

text \<open>
  What a call can end with instead of a value: one of the two exception classes of the
  engine, or the undefined behaviour of reading \<open>tokens[i]\<close> outside the vector, which
  \<open>std::vector::operator[]\<close> does not check.
\<close>

datatype error =
  parse_exception int string
  | broken_parser_exception string
  | undefined_behaviour

text \<open>
  A token: its type, the offset of its first character and the stored \<open>_value\<close>, which
  the constructor sets to zero unless a value is given.
\<close>

record token =
  type :: token_type
  start_position :: int
  stored_value :: double

definition make_token :: "token_type \<Rightarrow> int \<Rightarrow> token" where
  "make_token t p = \<lparr>type = t, start_position = p, stored_value = Finite False 0\<rparr>"

definition number_token :: "int \<Rightarrow> double \<Rightarrow> token" where
  "number_token p v = \<lparr>type = T_number, start_position = p, stored_value = v\<rparr>"

text \<open>\<open>token::value()\<close>.\<close>

definition token_value :: "token \<Rightarrow> error + double" where
  "token_value t =
     (if type t \<noteq> T_number then Inl (broken_parser_exception ''Broken parser: Unsupported operation'')
      else Inr (stored_value t))"

datatype priority = P_lowest | P_first | P_second

text \<open>The enumerators in their declaration order, which \<open><=\<close> compares.\<close>

fun priority_value :: "priority \<Rightarrow> nat" where
  "priority_value P_lowest = 0"
| "priority_value P_first = 1"
| "priority_value P_second = 2"

text \<open>The class hierarchy below \<open>expression\<close>, one constructor for each class.\<close>

datatype expression =
  Add expression expression
  | Subtract expression expression
  | Multiply expression expression
  | Divide expression expression
  | Parentheses expression
  | Number double
  | Negative expression

fun calc :: "expression \<Rightarrow> double" where
  "calc (Add left right) = dadd (calc left) (calc right)"
| "calc (Subtract left right) = dsub (calc left) (calc right)"
| "calc (Multiply left right) = dmul (calc left) (calc right)"
| "calc (Divide left right) = ddiv (calc left) (calc right)"
| "calc (Parentheses content) = calc content"
| "calc (Number v) = v"
| "calc (Negative content) = dmul (Finite True 1) (calc content)"

fun consumed_tokens :: "expression \<Rightarrow> int" where
  "consumed_tokens (Add left right) = consumed_tokens left + consumed_tokens right + 1"
| "consumed_tokens (Subtract left right) = consumed_tokens left + consumed_tokens right + 1"
| "consumed_tokens (Multiply left right) = consumed_tokens left + consumed_tokens right + 1"
| "consumed_tokens (Divide left right) = consumed_tokens left + consumed_tokens right + 1"
| "consumed_tokens (Parentheses content) = consumed_tokens content + 2"
| "consumed_tokens (Number v) = 1"
| "consumed_tokens (Negative content) = consumed_tokens content + 1"

section \<open>The tokenizer\<close>

text \<open>
  Offsets and indices are values of the C++ type \<open>int\<close>. They are modelled as
  integers without a bound: a formula is taken to be shorter than \<open>2\<^sup>3\<^sup>1\<close> characters,
  so that no offset overflows.

  \<open>parse_number\<close>: \<open>std::strtod\<close> throws nothing, so the \<open>catch\<close> clause for
  \<open>std::logic_error\<close> is never entered and the only exception is the one thrown in the
  \<open>try\<close> block.
\<close>

definition parse_number :: "string \<Rightarrow> int \<Rightarrow> error + double" where
  "parse_number number number_start =
     (case strtod number of
        (v, end_offset) \<Rightarrow>
          if end_offset \<noteq> length number \<or> \<not> isnormal v
          then Inl (parse_exception number_start ''Number too long'')
          else Inr v)"

text \<open>The \<open>switch\<close> of \<open>tokenize\<close>: the tokens after the symbol at offset \<open>i\<close>.\<close>

definition symbol_token :: "char \<Rightarrow> int \<Rightarrow> token list \<Rightarrow> error + token list" where
  "symbol_token symbol i tokens =
     (if symbol = CHR '' '' then Inr tokens
      else if symbol = CHR ''('' then Inr (tokens @ [make_token T_opening_parenthesis i])
      else if symbol = CHR '')'' then Inr (tokens @ [make_token T_closing_parenthesis i])
      else if symbol = CHR ''+'' then Inr (tokens @ [make_token T_plus i])
      else if symbol = CHR ''-'' then Inr (tokens @ [make_token T_minus i])
      else if symbol = CHR ''*'' then Inr (tokens @ [make_token T_multiply i])
      else if symbol = CHR ''/'' then Inr (tokens @ [make_token T_divide i])
      else Inl (parse_exception i ''Unexpected symbol''))"

text \<open>The test of \<open>tokenize\<close> for a character of a numeric literal.\<close>

definition numeric_symbol :: "char \<Rightarrow> bool" where
  "numeric_symbol symbol = (CHR ''0'' \<le> symbol \<and> symbol \<le> CHR ''9'' \<or> symbol = CHR ''.'')"

text \<open>
  The \<open>for\<close> loop of \<open>tokenize\<close>, as a recursion over the characters from offset \<open>i\<close>
  on; \<open>i == formula.size() - 1\<close> is the test that no character follows. The loop state is
  the buffer (the local \<open>number_token\<close>, here \<open>number_buffer\<close>), its start
  \<open>number_start\<close> and the tokens made so far.
\<close>

fun tokenize_loop :: "string \<Rightarrow> int \<Rightarrow> string \<Rightarrow> int \<Rightarrow> token list \<Rightarrow> error + token list" where
  "tokenize_loop [] i number_buffer number_start tokens = Inr tokens"
| "tokenize_loop (symbol # rest) i number_buffer number_start tokens =
     (if numeric_symbol symbol then
        (let number_start' = (if number_buffer = [] then i else number_start);
             number_buffer' = number_buffer @ [symbol]
         in if rest = [] then
              (case parse_number number_buffer' number_start' of
                 Inl e \<Rightarrow> Inl e
               | Inr v \<Rightarrow>
                   tokenize_loop rest (i + 1) number_buffer' number_start'
                     (tokens @ [number_token number_start' v]))
            else tokenize_loop rest (i + 1) number_buffer' number_start' tokens)
      else if number_buffer \<noteq> [] then
        (case parse_number number_buffer number_start of
           Inl e \<Rightarrow> Inl e
         | Inr v \<Rightarrow>
             (case symbol_token symbol i (tokens @ [number_token number_start v]) of
                Inl e \<Rightarrow> Inl e
              | Inr tokens' \<Rightarrow> tokenize_loop rest (i + 1) [] number_start tokens'))
      else
        (case symbol_token symbol i tokens of
           Inl e \<Rightarrow> Inl e
         | Inr tokens' \<Rightarrow> tokenize_loop rest (i + 1) number_buffer number_start tokens'))"

definition tokenize :: "string \<Rightarrow> error + token list" where
  "tokenize formula = tokenize_loop formula 0 [] 0 []"

section \<open>The parser\<close>

text \<open>\<open>tokens[i]\<close>: defined inside the vector only.\<close>

definition token_at :: "token list \<Rightarrow> int \<Rightarrow> error + token" where
  "token_at tokens i =
     (if 0 \<le> i \<and> i < int (length tokens) then Inr (tokens ! nat i) else Inl undefined_behaviour)"

text \<open>
  \<open>get_priority\<close> and \<open>create_two_operand_expression\<close>: the \<open>default\<close> branch of the
  \<open>switch\<close> is for no value of the enumeration, and has no equation.
\<close>

fun get_priority :: "operator \<Rightarrow> priority" where
  "get_priority O_minus = P_first"
| "get_priority O_plus = P_first"
| "get_priority O_multiply = P_second"
| "get_priority O_divide = P_second"

definition parse_operator :: "token \<Rightarrow> error + operator" where
  "parse_operator t =
     (case type t of
        T_plus \<Rightarrow> Inr O_plus
      | T_minus \<Rightarrow> Inr O_minus
      | T_multiply \<Rightarrow> Inr O_multiply
      | T_divide \<Rightarrow> Inr O_divide
      | _ \<Rightarrow> Inl (parse_exception (start_position t) ''Unexpected token: operator needed''))"

fun create_two_operand_expression :: "expression \<Rightarrow> operator \<Rightarrow> expression \<Rightarrow> expression" where
  "create_two_operand_expression left O_multiply right = Multiply left right"
| "create_two_operand_expression left O_divide right = Divide left right"
| "create_two_operand_expression left O_plus right = Add left right"
| "create_two_operand_expression left O_minus right = Subtract left right"

text \<open>
  The \<open>for\<close> loop of \<open>find_closing_parenthesis\<close> from index \<open>i\<close> on, at nesting depth
  \<open>depth\<close>; the function returns \<open>-1\<close> when the loop ends.
\<close>

function find_closing_loop :: "token list \<Rightarrow> int \<Rightarrow> int \<Rightarrow> int \<Rightarrow> error + int" where
  "find_closing_loop tokens i end_index depth =
     (if i \<le> end_index then
        (case token_at tokens i of
           Inl e \<Rightarrow> Inl e
         | Inr t \<Rightarrow>
             if type t = T_closing_parenthesis then
               (if depth = 0 then Inr i
                else if 0 < depth then find_closing_loop tokens (i + 1) end_index (depth - 1)
                else Inl (broken_parser_exception ''Broken parser: Missed closing parenthesis''))
             else if type t = T_opening_parenthesis then
               find_closing_loop tokens (i + 1) end_index (depth + 1)
             else find_closing_loop tokens (i + 1) end_index depth)
      else Inr (- 1))"
  by pat_completeness auto
termination
  by (relation "measure (\<lambda>(tokens, i, end_index, depth). nat (end_index + 1 - i))") auto

definition find_closing_parenthesis :: "token list \<Rightarrow> int \<Rightarrow> int \<Rightarrow> error + int" where
  "find_closing_parenthesis tokens start end_index = find_closing_loop tokens start end_index 0"

text \<open>A found index lies in the range that was searched.\<close>

lemma find_closing_loop_range:
  "find_closing_loop tokens i end_index depth = Inr c \<Longrightarrow> c \<noteq> - 1 \<Longrightarrow> i \<le> c \<and> c \<le> end_index"
proof (induction tokens i end_index depth rule: find_closing_loop.induct)
  case (1 tokens i end_index depth)
  show ?case
  proof (cases "i \<le> end_index")
    case False
    with "1.prems" show ?thesis by simp
  next
    case True
    with "1.prems" obtain t where t: "token_at tokens i = Inr t"
      by (auto split: sum.splits)
    from True t "1.prems" "1.IH" show ?thesis
      by (auto split: if_splits)
  qed
qed

text \<open>Every expression counts at least one token, and a new node counts more than its left operand.\<close>

lemma consumed_tokens_pos: "0 < consumed_tokens e"
  by (induction e) auto

lemma consumed_create:
  "consumed_tokens (create_two_operand_expression l op r) = consumed_tokens l + consumed_tokens r + 1"
  by (cases op) auto

text \<open>
  \<open>parse_range\<close>, \<open>parse_operand\<close> and \<open>parse_parentheses\<close> call one another.
  \<open>parse_range_loop\<close> is the \<open>while\<close> loop of \<open>parse_range\<close>; its state is \<open>result\<close>.
  The local \<open>consumed_tokens\<close> is \<open>result->consumed_tokens()\<close> whenever the loop test
  is reached, and one more after the increment in the body.
\<close>

function parse_range :: "token list \<Rightarrow> int \<Rightarrow> int \<Rightarrow> priority \<Rightarrow> error + expression"
  and parse_range_loop :: "token list \<Rightarrow> int \<Rightarrow> int \<Rightarrow> priority \<Rightarrow> expression \<Rightarrow> error + expression"
  and parse_operand :: "token list \<Rightarrow> int \<Rightarrow> int \<Rightarrow> error + expression"
  and parse_parentheses :: "token list \<Rightarrow> int \<Rightarrow> int \<Rightarrow> error + expression"
where
  "parse_range tokens start end_index parent_priority =
     (case parse_operand tokens start end_index of
        Inl e \<Rightarrow> Inl e
      | Inr result \<Rightarrow> parse_range_loop tokens start end_index parent_priority result)"
| "parse_range_loop tokens start end_index parent_priority result =
     (if consumed_tokens result < end_index - start + 1 then
        (case token_at tokens (start + consumed_tokens result) of
           Inl e \<Rightarrow> Inl e
         | Inr t \<Rightarrow>
             (case parse_operator t of
                Inl e \<Rightarrow> Inl e
              | Inr next_operator \<Rightarrow>
                  if priority_value (get_priority next_operator) \<le> priority_value parent_priority
                  then Inr result
                  else
                    (case parse_range tokens (start + (consumed_tokens result + 1)) end_index
                            (get_priority next_operator) of
                       Inl e \<Rightarrow> Inl e
                     | Inr next_operand \<Rightarrow>
                         parse_range_loop tokens start end_index parent_priority
                           (create_two_operand_expression result next_operator next_operand))))
      else Inr result)"
| "parse_operand tokens start end_index =
     (case token_at tokens start of
        Inl e \<Rightarrow> Inl e
      | Inr first_token \<Rightarrow>
          (case type first_token of
             T_opening_parenthesis \<Rightarrow> parse_parentheses tokens start end_index
           | T_minus \<Rightarrow>
               if start = end_index
               then Inl (parse_exception (start_position first_token) ''Orphan minus'')
               else (case parse_operand tokens (start + 1) end_index of
                       Inl e \<Rightarrow> Inl e
                     | Inr content \<Rightarrow> Inr (Negative content))
           | T_number \<Rightarrow>
               (case token_value first_token of
                  Inl e \<Rightarrow> Inl e
                | Inr v \<Rightarrow> Inr (Number v))
           | _ \<Rightarrow> Inl (parse_exception (start_position first_token) ''Unexpected token'')))"
| "parse_parentheses tokens start end_index =
     (case find_closing_parenthesis tokens (start + 1) end_index of
        Inl e \<Rightarrow> Inl e
      | Inr closing_parenthesis_index \<Rightarrow>
          if closing_parenthesis_index = - 1 then
            (case token_at tokens start of
               Inl e \<Rightarrow> Inl e
             | Inr t \<Rightarrow> Inl (parse_exception (start_position t) ''Unclosed parenthesis''))
          else if closing_parenthesis_index = start + 1 then
            (case token_at tokens start of
               Inl e \<Rightarrow> Inl e
             | Inr t \<Rightarrow> Inl (parse_exception (start_position t) ''Empty parentheses''))
          else
            (case parse_range tokens (start + 1) (closing_parenthesis_index - 1) P_lowest of
               Inl e \<Rightarrow> Inl e
             | Inr content \<Rightarrow> Inr (Parentheses content)))"
  by pat_completeness auto

termination
  apply (relation "inv_image (less_than <*lex*> less_than <*lex*> less_than)
    (\<lambda>x. case x of
       Inl (Inl (tokens, s, e, p)) \<Rightarrow> (nat (int (length tokens) - s) + nat (e - s + 1), 3::nat, 0::nat)
     | Inl (Inr (tokens, s, e, p, r)) \<Rightarrow> (nat (int (length tokens) - s) + nat (e - s + 1), 2, nat (e - s + 1 - consumed_tokens r))
     | Inr (Inl (tokens, s, e)) \<Rightarrow> (nat (int (length tokens) - s) + nat (e - s + 1), 1, 0)
     | Inr (Inr (tokens, s, e)) \<Rightarrow> (nat (int (length tokens) - s) + nat (e - s + 1), 0, 0))")
  subgoal by auto
  subgoal by simp
  subgoal by simp
  subgoal for tokens start end_index parent_priority result t next_operator
    using consumed_tokens_pos[of result] by auto
  subgoal for tokens start end_index parent_priority result t next_operator next_operand
    using consumed_tokens_pos[of result] consumed_tokens_pos[of next_operand]
    by (auto simp: consumed_create)
  subgoal by simp
  subgoal for tokens start end_index first_token
    by (auto simp: token_at_def split: if_splits)
  subgoal for tokens start end_index c
    using find_closing_loop_range[of tokens "start + 1" end_index 0 c]
    by (auto simp: find_closing_parenthesis_def)
  done

text \<open>The recursive equations are unfolded only where a proof asks for them.\<close>

declare find_closing_loop.simps [simp del]
declare parse_range.simps [simp del]
declare parse_range_loop.simps [simp del]
declare parse_operand.simps [simp del]
declare parse_parentheses.simps [simp del]

definition parse :: "string \<Rightarrow> error + expression" where
  "parse formula =
     (case tokenize formula of
        Inl e \<Rightarrow> Inl e
      | Inr tokens \<Rightarrow>
          if tokens = [] then Inl (parse_exception 0 ''Empty input'')
          else parse_range tokens 0 (int (length tokens) - 1) P_lowest)"

definition calculate :: "string \<Rightarrow> error + double" where
  "calculate formula =
     (case parse formula of
        Inl e \<Rightarrow> Inl e
      | Inr expression \<Rightarrow> Inr (calc expression))"

section \<open>The command line\<close>

text \<open>
  A line written to a stream and ended by \<open>std::endl\<close>: text, or the text that
  \<open>operator<<\<close> makes of a double, which is not modelled further.
\<close>

datatype line = Text_line string | Double_line double

text \<open>
  How a run of \<open>main\<close> ends: it returns a status, having written lines to \<open>std::cout\<close>
  and to \<open>std::cerr\<close>; or an exception that it does not catch ends the process; or the
  behaviour is undefined.
\<close>

datatype outcome =
  Exited "line list" "line list" int
  | Terminated string
  | Undefined

definition EXIT_SUCCESS :: int where
  "EXIT_SUCCESS = 0"

definition EXIT_FAILURE :: int where
  "EXIT_FAILURE = 1"

text \<open>\<open>main\<close> on the line that \<open>std::getline\<close> has read.\<close>

definition main :: "string \<Rightarrow> outcome" where
  "main formula =
     (case calculate formula of
        Inr result \<Rightarrow> Exited [Double_line result] [] EXIT_SUCCESS
      | Inl (parse_exception position message) \<Rightarrow>
          Exited []
            [Text_line ''Invalid input:'',
             Text_line ([CHR 0x22] @ formula @ [CHR 0x22]),
             Text_line (replicate (nat (position + 1)) CHR '' '' @ ''^''),
             Text_line message]
            EXIT_FAILURE
      | Inl (broken_parser_exception message) \<Rightarrow> Terminated message
      | Inl undefined_behaviour \<Rightarrow> Undefined)"

section \<open>Facts about the double type\<close>

lemma pow2_powi: "pow2 k = 2 powi k"
  by (simp add: pow2_def power_int_def inverse_eq_divide power_one_over)

lemma pow2_pos: "0 < pow2 k"
  by (simp add: pow2_powi)

lemma round_even_of_int: "round_even (of_int k) = k"
  by (simp add: round_even_def)

text \<open>A positive integer below \<open>2\<^sup>5\<^sup>3\<close> is a double: rounding keeps it.\<close>

lemma round_double_of_nat:
  assumes "0 < n" "n < 2 ^ 53"
  shows "round_double s (of_nat n) = Finite s (of_nat n)"
proof -
  let ?x = "of_nat n :: rat"
  let ?b = "bitlen (int n)"
  have x1: "1 \<le> ?x" using assms by simp
  have xlt: "?x < 2 ^ 53"
    using assms(2) by (metis of_nat_less_iff of_nat_numeral of_nat_power)
  have "(2::rat) ^ 53 \<le> 2 ^ 1024" by (rule power_increasing) simp_all
  then have nov: "\<not> pow2 1024 \<le> ?x" using xlt by (simp add: pow2_def)
  have b1: "1 \<le> ?b" using assms(1) bitlen_ge_iff_power[of 1 "int n"] by simp
  have b53: "?b \<le> 53" using assms(2) bitlen_le_iff_power[of "int n" 53] by simp
  have il: "ilog2 ?x = ?b - 1" using x1 by (simp add: ilog2_def)
  have e: "max (ilog2 ?x) (- 1022) = ?b - 1" using il b1 by simp
  define k where "k = nat (53 - ?b)"
  have q: "pow2 (?b - 1 - 52) = 1 / 2 ^ k"
    using b53 by (simp add: pow2_powi k_def power_int_def inverse_eq_divide power_one_over)
  have quot: "?x / (1 / 2 ^ k) = of_int (int n * 2 ^ k)" by simp
  have "round_double s ?x =
       (let y = of_int (round_even (?x / (1 / 2 ^ k))) * (1 / 2 ^ k)
        in if pow2 1024 \<le> y then Infinity s else Finite s y)"
    using assms(1) nov unfolding round_double_def e Let_def q by simp
  also have "\<dots> = Finite s ?x"
    unfolding quot round_even_of_int Let_def using nov by simp
  finally show ?thesis .
qed

lemma round_double_numeral [simp]:
  "numeral k < (2::nat) ^ 53 \<Longrightarrow> round_double s (numeral k) = Finite s (numeral k)"
  using round_double_of_nat[of "numeral k" s] by simp

lemma round_double_one [simp]: "round_double s 1 = Finite s 1"
  using round_double_of_nat[of 1 s] by simp

lemma round_double_zero [simp]: "round_double s 0 = Finite s 0"
  by (simp add: round_double_def)

lemma round_double_overflow: "pow2 1024 \<le> x \<Longrightarrow> round_double s x = Infinity s"
  using pow2_pos[of 1024] by (auto simp: round_double_def)

lemma pow2_min_normal_le_one: "pow2 (- 1022) \<le> 1"
  by (simp add: pow2_def)

lemma isnormal_ge_one [simp]: "1 \<le> m \<Longrightarrow> pow2 (- 1022) \<le> m"
  using pow2_min_normal_le_one by (rule order_trans)

lemma pow2_add: "pow2 (a + b) = pow2 a * pow2 b"
  by (simp add: pow2_powi power_int_add)

lemma pow2_mono: "a \<le> b \<Longrightarrow> pow2 a \<le> pow2 b"
  by (simp add: pow2_powi power_int_increasing)

lemma pow2_strict_mono: "a < b \<Longrightarrow> pow2 a < pow2 b"
  by (simp add: pow2_powi power_int_strict_increasing)

lemma pow2_nat: "pow2 (int n) = 2 ^ n"
  by (simp add: pow2_def)

lemma pow2_neg: "pow2 (- a) = 1 / pow2 a"
  by (simp add: pow2_powi power_int_minus inverse_eq_divide)

text \<open>\<open>ilog2\<close> is the binary exponent: the power of two at or below a positive rational.\<close>

lemma ilog2_bounds:
  assumes "0 < x"
  shows "pow2 (ilog2 x) \<le> x \<and> x < pow2 (ilog2 x + 1)"
proof (cases "1 \<le> x")
  case True
  let ?n = "\<lfloor>x\<rfloor>"
  have n: "0 < ?n" using True by simp
  from bitlen_bounds[OF n] have lo: "2 ^ nat (bitlen ?n - 1) \<le> ?n" and hi: "?n < 2 ^ nat (bitlen ?n)"
    by auto
  have b1: "1 \<le> bitlen ?n" using n bitlen_ge_iff_power[of 1 ?n] by simp
  have "pow2 (bitlen ?n - 1) = of_int (2 ^ nat (bitlen ?n - 1))"
    using b1 by (simp add: pow2_def)
  also have "\<dots> \<le> of_int ?n" using lo by (simp only: of_int_le_iff)
  also have "\<dots> \<le> x" by simp
  finally have A: "pow2 (ilog2 x) \<le> x" using True by (simp add: ilog2_def)
  have "?n + 1 \<le> 2 ^ nat (bitlen ?n)" using hi by simp
  then have "(of_int (?n + 1) :: rat) \<le> of_int (2 ^ nat (bitlen ?n))" by (simp only: of_int_le_iff)
  moreover have "x < of_int (?n + 1)" by linarith
  ultimately have "x < of_int (2 ^ nat (bitlen ?n))" by linarith
  also have "\<dots> = pow2 (bitlen ?n)" using b1 by (simp add: pow2_def)
  finally have B: "x < pow2 (ilog2 x + 1)" using True by (simp add: ilog2_def)
  from A B show ?thesis ..
next
  case False
  define y where "y = 1 / x"
  have y1: "1 < y" using False assms by (simp add: y_def)
  let ?n = "\<lceil>y\<rceil> - 1"
  let ?c = "bitlen ?n"
  have n: "0 < ?n" using y1 by linarith
  from bitlen_bounds[OF n] have lo: "2 ^ nat (?c - 1) \<le> ?n" and hi: "?n < 2 ^ nat ?c"
    by auto
  have c1: "1 \<le> ?c" using n bitlen_ge_iff_power[of 1 ?n] by simp
  have il: "ilog2 x = - ?c" using False by (simp add: ilog2_def y_def)
  have "\<lceil>y\<rceil> \<le> 2 ^ nat ?c" using hi by simp
  then have "y \<le> of_int (2 ^ nat ?c)" by (simp only: ceiling_le_iff)
  also have "\<dots> = pow2 ?c" using c1 by (simp add: pow2_def)
  finally have "y \<le> pow2 ?c" .
  then have "1 / pow2 ?c \<le> 1 / y" using y1 pow2_pos[of ?c]
    by (simp add: frac_le)
  then have A: "pow2 (ilog2 x) \<le> x" using assms by (simp add: il pow2_neg y_def)
  have "2 ^ nat (?c - 1) < \<lceil>y\<rceil>" using lo by simp
  then have "of_int (2 ^ nat (?c - 1)) < y" by (simp only: less_ceiling_iff)
  moreover have "of_int (2 ^ nat (?c - 1)) = pow2 (?c - 1)" using c1 by (simp add: pow2_def)
  ultimately have "pow2 (?c - 1) < y" by simp
  then have "1 / y < 1 / pow2 (?c - 1)" using pow2_pos[of "?c - 1"]
    by (simp add: frac_less2)
  then have "x < pow2 (- (?c - 1))" using assms pow2_neg[of "?c - 1"] by (simp add: y_def)
  then have B: "x < pow2 (ilog2 x + 1)" by (simp add: il)
  from A B show ?thesis ..
qed

lemma ilog2_unique:
  assumes "pow2 k \<le> x" "x < pow2 (k + 1)"
  shows "ilog2 x = k"
proof -
  have x: "0 < x" using assms(1) pow2_pos[of k] by linarith
  from ilog2_bounds[OF x] have a: "pow2 (ilog2 x) \<le> x" and b: "x < pow2 (ilog2 x + 1)" by auto
  have "pow2 k < pow2 (ilog2 x + 1)" using assms(1) b by linarith
  then have "k < ilog2 x + 1" using pow2_mono[of "ilog2 x + 1" k] by (cases "k < ilog2 x + 1") auto
  moreover have "pow2 (ilog2 x) < pow2 (k + 1)" using assms(2) a by linarith
  then have "ilog2 x < k + 1" using pow2_mono[of "k + 1" "ilog2 x"] by (cases "ilog2 x < k + 1") auto
  ultimately show ?thesis by simp
qed

lemma round_even_nonneg: "0 \<le> x \<Longrightarrow> 0 \<le> round_even x"
  by (auto simp: round_even_def Let_def)

lemma round_even_le: "x \<le> of_int k \<Longrightarrow> round_even x \<le> k"
proof -
  assume a: "x \<le> of_int k"
  then have f: "\<lfloor>x\<rfloor> \<le> k" using floor_mono[of x "of_int k"] by simp
  show ?thesis
  proof (cases "\<lfloor>x\<rfloor> = k")
    case True
    then have "x = of_int k" using a by linarith
    then show ?thesis by (simp add: round_even_of_int)
  next
    case False
    with f have "\<lfloor>x\<rfloor> + 1 \<le> k" by simp
    then show ?thesis by (auto simp: round_even_def Let_def)
  qed
qed

lemma round_even_ge: "of_int k \<le> x \<Longrightarrow> k \<le> round_even x"
proof -
  assume "of_int k \<le> x"
  then have "k \<le> \<lfloor>x\<rfloor>" by (simp add: le_floor_iff)
  then show ?thesis by (auto simp: round_even_def Let_def)
qed

lemma of_int_mult_mono: "m \<le> n \<Longrightarrow> 0 < q \<Longrightarrow> of_int m * q \<le> of_int n * (q::rat)"
  by (simp add: mult_right_mono)

lemma pow2_div: "pow2 a / pow2 b = pow2 (a - b)"
  using pow2_add[of "a - b" b] pow2_pos[of b] by (simp add: field_simps)

lemma pow2_53: "pow2 53 = of_int (2 ^ 53)"
  by (simp add: pow2_def)

lemma pow2_52: "pow2 52 = of_int (2 ^ 52)"
  by (simp add: pow2_def)

text \<open>What rounding yields is a double: rounding it again changes nothing.\<close>

lemma round_double_fixed:
  assumes x: "0 \<le> x" and r: "round_double s x = Finite t y"
  shows "round_double s y = Finite t y \<and> 0 \<le> y"
proof (cases "x = 0")
  case True
  with r show ?thesis by (simp add: round_double_def)
next
  case False
  then have xpos: "0 < x" using x by simp
  define e where "e = max (ilog2 x) (- 1022)"
  define q where "q = pow2 (e - 52)"
  define m where "m = round_even (x / q)"
  have qpos: "0 < q" by (simp add: q_def pow2_pos)
  from r False have nox: "\<not> pow2 1024 \<le> x"
    by (auto simp: round_double_def split: if_splits)
  from r False nox have y: "y = of_int m * q" and noy: "\<not> pow2 1024 \<le> y" and ts: "t = s"
    by (auto simp: round_double_def Let_def e_def q_def m_def split: if_splits)
  have m0: "0 \<le> m" unfolding m_def using xpos qpos by (intro round_even_nonneg) simp
  have y0: "0 \<le> y" using m0 qpos by (simp add: y)
  show ?thesis
  proof (cases "m = 0")
    case True
    then show ?thesis by (simp add: y ts)
  next
    case False
    then have mpos: "0 < m" using m0 by simp
    then have ypos: "0 < y" using qpos by (simp add: y)
    from ilog2_bounds[OF xpos] have xlo: "pow2 (ilog2 x) \<le> x" and xhi: "x < pow2 (ilog2 x + 1)"
      by auto
    have "x < pow2 (e + 1)"
      using xhi pow2_mono[of "ilog2 x + 1" "e + 1"] by (simp add: e_def)
    then have "x / q < pow2 (e + 1) / q" using qpos by (simp add: divide_strict_right_mono)
    also have "\<dots> = pow2 53" unfolding q_def pow2_div by simp
    finally have "x / q \<le> of_int (2 ^ 53)" by (simp add: pow2_53)
    then have mle: "m \<le> 2 ^ 53" unfolding m_def by (rule round_even_le)
    have yle: "y \<le> pow2 (e + 1)"
    proof -
      have "of_int m * q \<le> of_int (2 ^ 53) * q"
        using mle qpos by (rule of_int_mult_mono)
      also have "\<dots> = pow2 53 * pow2 (e - 52)" by (simp add: pow2_53 q_def)
      also have "\<dots> = pow2 (e + 1)" using pow2_add[of 53 "e - 52"] by (simp add: add.commute)
      finally show ?thesis by (simp add: y)
    qed
    define ey where "ey = max (ilog2 y) (- 1022)"
    have e_ge: "- 1022 \<le> e" by (simp add: e_def)
    have int_quot: "\<exists>k. y / pow2 (ey - 52) = of_int k"
    proof (cases "y = pow2 (e + 1)")
      case True
      have "ilog2 y = e + 1"
        by (rule ilog2_unique) (simp_all add: True pow2_strict_mono)
      then have ey: "ey = e + 1" using e_ge by (simp add: ey_def)
      have "y / pow2 (ey - 52) = pow2 52" unfolding True ey pow2_div by simp
      then show ?thesis unfolding pow2_52 by blast
    next
      case False
      with yle have ylt: "y < pow2 (e + 1)" by simp
      from ilog2_bounds[OF ypos] have ylo: "pow2 (ilog2 y) \<le> y" by simp
      have "pow2 (ilog2 y) < pow2 (e + 1)" using ylo ylt by linarith
      then have ily: "ilog2 y \<le> e"
        using pow2_mono[of "e + 1" "ilog2 y"] by (cases "ilog2 y \<le> e") auto
      have "ey = e"
      proof (cases "e = - 1022")
        case True
        with ily show ?thesis by (simp add: ey_def)
      next
        case False
        with e_ge have eil: "e = ilog2 x" by (simp add: e_def max_def split: if_splits)
        have "pow2 e \<le> x" using xlo eil by simp
        then have "pow2 e / q \<le> x / q" using qpos by (simp add: divide_right_mono)
        then have "of_int (2 ^ 52) \<le> x / q" unfolding q_def pow2_div by (simp add: pow2_52)
        then have "2 ^ 52 \<le> m" unfolding m_def by (rule round_even_ge)
        then have "of_int (2 ^ 52) * q \<le> of_int m * q"
          using qpos by (rule of_int_mult_mono)
        moreover have "of_int (2 ^ 52) * q = pow2 e"
          using pow2_add[of 52 "e - 52"] by (simp add: q_def pow2_52 add.commute)
        ultimately have "pow2 e \<le> y" by (simp add: y)
        then have "ilog2 y = e" using ylt by (intro ilog2_unique) simp_all
        then show ?thesis using e_ge by (simp add: ey_def)
      qed
      then have "y / pow2 (ey - 52) = of_int m" using qpos by (simp add: y q_def)
      then show ?thesis by blast
    qed
    then obtain k where k: "y / pow2 (ey - 52) = of_int k" by blast
    have prod: "of_int k * pow2 (ey - 52) = y"
      using k pow2_pos[of "ey - 52"] by (simp add: field_simps)
    have "round_double s y = Finite s y"
      using ypos noy unfolding round_double_def Let_def ey_def[symmetric] k round_even_of_int prod
      by simp
    then show ?thesis using y0 ts by simp
  qed
qed

text \<open>Below half the least normal magnitude the result of rounding is zero or subnormal.\<close>

lemma round_double_subnormal:
  assumes "0 < x" "x \<le> pow2 (- 1023)"
  shows "\<exists>y. round_double s x = Finite s y \<and> y < pow2 (- 1022)"
proof -
  from ilog2_bounds[OF assms(1)] have "pow2 (ilog2 x) \<le> x" by simp
  then have "pow2 (ilog2 x) < pow2 (- 1022)"
    using assms(2) pow2_strict_mono[of "- 1023" "- 1022"] by linarith
  then have il: "ilog2 x < - 1022"
    using pow2_mono[of "- 1022" "ilog2 x"] by (cases "ilog2 x < - 1022") auto
  then have e: "max (ilog2 x) (- 1022) = - 1022" by simp
  define q where "q = pow2 (- 1022 - 52)"
  define m where "m = round_even (x / q)"
  have qpos: "0 < q" by (simp add: q_def pow2_pos)
  have "x / q \<le> pow2 (- 1023) / q" using assms(2) qpos by (simp add: divide_right_mono)
  also have "\<dots> = of_int (2 ^ 51)" unfolding q_def pow2_div by (simp add: pow2_def)
  finally have "m \<le> 2 ^ 51" unfolding m_def by (rule round_even_le)
  then have "of_int m * q \<le> of_int (2 ^ 51) * q"
    using qpos by (rule of_int_mult_mono)
  also have "of_int (2 ^ 51) * q = pow2 (- 1023)"
    using pow2_add[of 51 "- 1074"] by (simp add: q_def pow2_def)
  finally have yle: "of_int m * q \<le> pow2 (- 1023)" .
  then have ylt: "of_int m * q < pow2 (- 1022)"
    using pow2_strict_mono[of "- 1023" "- 1022"] by linarith
  have "pow2 (- 1022) \<le> pow2 1024" by (rule pow2_mono) simp
  then have nov: "\<not> pow2 1024 \<le> of_int m * q" "\<not> pow2 1024 \<le> x"
    using ylt assms(2) pow2_strict_mono[of "- 1023" "- 1022"] by linarith+
  have "round_double s x = Finite s (of_int m * q)"
    using assms(1) nov unfolding round_double_def Let_def e q_def[symmetric] m_def[symmetric]
    by simp
  with ylt show ?thesis by blast
qed

text \<open>The definitions that a run on a given formula unfolds.\<close>

lemmas run_defs =
  calculate_def parse_def tokenize_def numeric_symbol_def parse_number_def strtod_def is_digit_def
  digit_value_def symbol_token_def make_token_def number_token_def token_at_def
  parse_operator_def token_value_def find_closing_parenthesis_def signed_def dsub_def
  find_closing_loop.simps parse_range.simps parse_range_loop.simps parse_operand.simps
  parse_parentheses.simps

section \<open>Empty input\<close>

lemma tokenize_loop_spaces:
  "\<forall>c \<in> set formula. c = CHR '' '' \<Longrightarrow> tokenize_loop formula i [] number_start tokens = Inr tokens"
  by (induction formula arbitrary: i) (simp_all add: symbol_token_def numeric_symbol_def)

text \<open>
  C4. The empty string is tokenized to the empty token sequence without an error; a
  formula whose token sequence is empty is refused by \<open>parse\<close> with a parse exception at
  offset 0 and the message "Empty input"; and so \<open>calculate\<close> fails on the empty string,
  at offset 0 with that message.
\<close>

theorem empty_input:
  "tokenize [] = Inr []
   \<and> (\<forall>formula. tokenize formula = Inr [] \<longrightarrow> parse formula = Inl (parse_exception 0 ''Empty input''))
   \<and> calculate [] = Inl (parse_exception 0 ''Empty input'')"
  by (simp add: tokenize_def parse_def calculate_def)

theorem empty_input_witness:
  "tokenize '' '' = Inr [] \<and> parse '' '' = Inl (parse_exception 0 ''Empty input'')"
proof -
  have t: "tokenize '' '' = Inr []"
    by (simp add: tokenize_def symbol_token_def numeric_symbol_def)
  from empty_input have "tokenize '' '' = Inr [] \<longrightarrow> parse '' '' = Inl (parse_exception 0 ''Empty input'')"
    by blast
  with t show ?thesis by simp
qed

text \<open>
  C9. A formula that holds nothing but space characters is tokenized, without an error, to
  the empty token sequence, so \<open>calculate\<close> fails on it with a parse exception at offset 0
  and the message "Empty input", whether or not the formula itself is empty.
\<close>

theorem spaces_only_input:
  assumes "\<forall>c \<in> set formula. c = CHR '' ''"
  shows "tokenize formula = Inr [] \<and> calculate formula = Inl (parse_exception 0 ''Empty input'')"
  using tokenize_loop_spaces[OF assms, of 0 0 "[]"]
  by (simp add: tokenize_def parse_def calculate_def)

theorem spaces_only_input_witness:
  "tokenize ''   '' = Inr [] \<and> calculate ''   '' = Inl (parse_exception 0 ''Empty input'')"
proof -
  have h: "\<forall>c \<in> set ''   ''. c = CHR '' ''" by simp
  from spaces_only_input[OF h] show ?thesis .
qed

section \<open>Numeric literals\<close>

text \<open>While the buffer is empty, the remembered start offset has no effect.\<close>

lemma tokenize_loop_number_start:
  "tokenize_loop cs i [] ns tokens = tokenize_loop cs i [] ns' tokens"
proof (induction cs arbitrary: i tokens)
  case Nil
  show ?case by simp
next
  case (Cons c cs)
  show ?case
  proof (cases "numeric_symbol c")
    case True
    then show ?thesis by simp
  next
    case False
    then show ?thesis using Cons.IH by (simp split: sum.splits)
  qed
qed

text \<open>
  A run of numeric characters that ends at the end of the input, or before another
  character, is put into the buffer and converted at once there.
\<close>

lemma tokenize_loop_numeric_run:
  assumes "lit \<noteq> []" "\<forall>c \<in> set lit. numeric_symbol c" "rest = [] \<or> \<not> numeric_symbol (hd rest)"
  shows "tokenize_loop (lit @ rest) i buf ns tokens =
     (case parse_number (buf @ lit) (if buf = [] then i else ns) of
        Inl e \<Rightarrow> Inl e
      | Inr v \<Rightarrow>
          (case rest of
             [] \<Rightarrow> Inr (tokens @ [number_token (if buf = [] then i else ns) v])
           | symbol # rest' \<Rightarrow>
               (case symbol_token symbol (i + int (length lit))
                       (tokens @ [number_token (if buf = [] then i else ns) v]) of
                  Inl e \<Rightarrow> Inl e
                | Inr tokens' \<Rightarrow>
                    tokenize_loop rest' (i + int (length lit) + 1) []
                      (if buf = [] then i else ns) tokens')))"
  using assms
proof (induction lit arbitrary: i buf ns)
  case Nil
  then show ?case by simp
next
  case (Cons c lit)
  from Cons.prems have c: "numeric_symbol c" by simp
  show ?case
  proof (cases "lit = []")
    case True
    show ?thesis
    proof (cases rest)
      case Nil
      with True c show ?thesis by (simp split: sum.splits)
    next
      case (Cons s rest')
      with Cons.prems(3) have "\<not> numeric_symbol s" by simp
      with True c Cons show ?thesis by (simp split: sum.splits)
    qed
  next
    case False
    with Cons.prems have IH: "\<And>i buf ns. tokenize_loop (lit @ rest) i buf ns tokens =
     (case parse_number (buf @ lit) (if buf = [] then i else ns) of
        Inl e \<Rightarrow> Inl e
      | Inr v \<Rightarrow>
          (case rest of
             [] \<Rightarrow> Inr (tokens @ [number_token (if buf = [] then i else ns) v])
           | symbol # rest' \<Rightarrow>
               (case symbol_token symbol (i + int (length lit))
                       (tokens @ [number_token (if buf = [] then i else ns) v]) of
                  Inl e \<Rightarrow> Inl e
                | Inr tokens' \<Rightarrow>
                    tokenize_loop rest' (i + int (length lit) + 1) []
                      (if buf = [] then i else ns) tokens')))"
      using Cons.IH by simp
    have step: "tokenize_loop ((c # lit) @ rest) i buf ns tokens =
          tokenize_loop (lit @ rest) (i + 1) (buf @ [c]) (if buf = [] then i else ns) tokens"
      using c False by (simp add: Let_def)
    show ?thesis
      unfolding step IH by (simp add: algebra_simps split: sum.splits list.splits)
  qed
qed

text \<open>After a character that is not numeric the loop goes on with an empty buffer.\<close>

lemma tokenize_loop_prefix:
  assumes "\<not> numeric_symbol c"
  shows "tokenize_loop (p @ c # rest) i buf ns tokens =
     (case tokenize_loop (p @ [c]) i buf ns tokens of
        Inl e \<Rightarrow> Inl e
      | Inr ts \<Rightarrow> tokenize_loop rest (i + int (length p) + 1) [] 0 ts)"
proof (induction p arbitrary: i buf ns tokens)
  case Nil
  show ?case using assms tokenize_loop_number_start[of rest "i + 1" _ _ 0]
    by (simp split: sum.splits)
next
  case (Cons a p)
  show ?case
  proof (cases "numeric_symbol a")
    case True
    then show ?thesis using Cons.IH by (simp add: Let_def algebra_simps split: sum.splits)
  next
    case False
    show ?thesis
    proof (cases "buf = []")
      case True
      with False show ?thesis using Cons.IH
        by (cases "symbol_token a i tokens") (simp_all add: algebra_simps split: sum.splits)
    next
      case nonempty: False
      show ?thesis
      proof (cases "parse_number buf ns")
        case (Inl e)
        with False nonempty show ?thesis by simp
      next
        case (Inr v)
        with False nonempty show ?thesis using Cons.IH
          by (cases "symbol_token a i (tokens @ [number_token ns v])")
            (simp_all add: algebra_simps split: sum.splits)
      qed
    qed
  qed
qed

text \<open>
  A literal in its context: after a prefix that was tokenized to \<open>ts\<close>, the literal is
  converted with the offset of its first character as its start.
\<close>

lemma tokenize_literal:
  assumes pre: "pre = [] \<or> \<not> numeric_symbol (last pre)"
    and ts: "tokenize pre = Inr ts"
    and lit: "lit \<noteq> []" "\<forall>c \<in> set lit. numeric_symbol c"
    and post: "post = [] \<or> \<not> numeric_symbol (hd post)"
  shows "tokenize (pre @ lit @ post) =
     (case parse_number lit (int (length pre)) of
        Inl e \<Rightarrow> Inl e
      | Inr v \<Rightarrow>
          (case post of
             [] \<Rightarrow> Inr (ts @ [number_token (int (length pre)) v])
           | symbol # rest' \<Rightarrow>
               (case symbol_token symbol (int (length pre) + int (length lit))
                       (ts @ [number_token (int (length pre)) v]) of
                  Inl e \<Rightarrow> Inl e
                | Inr tokens' \<Rightarrow>
                    tokenize_loop rest' (int (length pre) + int (length lit) + 1) []
                      (int (length pre)) tokens')))"
proof (cases "pre = []")
  case True
  with ts have "ts = []" by (simp add: tokenize_def)
  with True show ?thesis
    using tokenize_loop_numeric_run[OF lit post, of 0 "[]" 0 "[]"]
    by (simp add: tokenize_def split: sum.splits list.splits)
next
  case False
  then obtain p c where pc: "pre = p @ [c]" by (metis rev_exhaust)
  with pre have c: "\<not> numeric_symbol c" by simp
  have "tokenize (pre @ lit @ post) = tokenize_loop (p @ c # (lit @ post)) 0 [] 0 []"
    by (simp add: tokenize_def pc)
  also have "\<dots> = tokenize_loop (lit @ post) (int (length pre)) [] 0 ts"
    using tokenize_loop_prefix[OF c, of p "lit @ post" 0 "[]" 0 "[]"] ts
    by (simp add: tokenize_def pc add.commute)
  finally show ?thesis
    using tokenize_loop_numeric_run[OF lit post, of "int (length pre)" "[]" 0 ts]
    by (simp split: sum.splits list.splits)
qed

text \<open>The value of a string of digits, and a digit repeated 310 times or more.\<close>

lemma decimal_lower: "acc * 10 ^ length cs \<le> decimal acc cs"
proof (induction cs arbitrary: acc)
  case Nil
  show ?case by simp
next
  case (Cons c cs)
  have "acc * 10 ^ length (c # cs) \<le> (10 * acc + digit_value c) * 10 ^ length cs"
    by (simp add: algebra_simps)
  also have "\<dots> \<le> decimal (10 * acc + digit_value c) cs" by (rule Cons.IH)
  finally show ?case by simp
qed

lemma decimal_zeros: "digit_value d = 0 \<Longrightarrow> decimal 0 (replicate n d) = 0"
  by (induction n) simp_all

lemma digit_value_cases:
  assumes "is_digit d"
  shows "d = CHR ''0'' \<or> 1 \<le> digit_value d"
proof (cases "of_char d = (48::nat)")
  case True
  then have "of_char d = (of_char CHR ''0'' :: nat)" by simp
  then show ?thesis by (simp only: of_char_eq_iff) simp
next
  case False
  moreover from assms have "(48::nat) \<le> of_char d"
    by (simp add: is_digit_def less_eq_char_def)
  ultimately have "1 \<le> of_char d - (48::nat)" by arith
  then show ?thesis by (simp add: digit_value_def)
qed

lemma strtod_digits:
  assumes "is_digit d" "0 < n"
  shows "strtod (replicate n d) = (round_double False (of_nat (decimal 0 (replicate n d))), n)"
proof -
  have "takeWhile is_digit (replicate n d) = replicate n d" using assms(1) by simp
  moreover have "dropWhile is_digit (replicate n d) = []" using assms(1) by simp
  ultimately show ?thesis using assms(2) by (simp add: strtod_def)
qed

lemma pow2_1024_le: "pow2 1024 \<le> 10 ^ 309"
  by (simp add: pow2_def)

lemma repeated_digit_rejected:
  assumes d: "is_digit d" and n: "310 \<le> n"
  shows "parse_number (replicate n d) p = Inl (parse_exception p ''Number too long'')"
proof -
  from n have n0: "0 < n" by simp
  note st = strtod_digits[OF d n0]
  from digit_value_cases[OF d] show ?thesis
  proof
    assume "d = CHR ''0''"
    then have "decimal 0 (replicate n d) = 0" by (intro decimal_zeros) (simp add: digit_value_def)
    then show ?thesis by (simp add: parse_number_def st pow2_pos not_le)
  next
    assume dv: "1 \<le> digit_value d"
    obtain k where k: "n = Suc k" using n0 by (cases n) auto
    have "(10::nat) ^ 309 \<le> 10 ^ k" using n k by (intro power_increasing) simp_all
    also have "\<dots> \<le> digit_value d * 10 ^ length (replicate k d)" using dv by simp
    also have "\<dots> \<le> decimal (digit_value d) (replicate k d)" by (rule decimal_lower)
    also have "\<dots> = decimal 0 (replicate n d)" by (simp add: k)
    finally have "(of_nat (10 ^ 309) :: rat) \<le> of_nat (decimal 0 (replicate n d))"
      by (simp only: of_nat_le_iff)
    then have "pow2 1024 \<le> of_nat (decimal 0 (replicate n d))"
      using pow2_1024_le by simp
    then have "round_double False (of_nat (decimal 0 (replicate n d))) = Infinity False"
      by (rule round_double_overflow)
    then show ?thesis by (simp add: parse_number_def st)
  qed
qed

lemma tokenize_repeated_digit:
  assumes d: "is_digit d" and n: "310 \<le> n"
  shows "tokenize (replicate n d) = Inl (parse_exception 0 ''Number too long'')"
proof -
  have num: "\<forall>c \<in> set (replicate n d). numeric_symbol c"
    using d by (simp add: numeric_symbol_def is_digit_def)
  have ne: "replicate n d \<noteq> []" using n by auto
  have "tokenize ([] @ replicate n d @ []) = Inl (parse_exception 0 ''Number too long'')"
    using tokenize_literal[of "[]" "[]" "replicate n d" "[]"] num ne
      repeated_digit_rejected[OF d n, of 0]
    by (simp add: tokenize_def)
  then show ?thesis by simp
qed

lemma calculate_repeated_digit:
  assumes "is_digit d" "310 \<le> n"
  shows "calculate (replicate n d) = Inl (parse_exception 0 ''Number too long'')"
  using tokenize_repeated_digit[OF assms] by (simp add: calculate_def parse_def)

text \<open>
  C2. Where a numeric literal \<open>lit\<close> (a maximal run of digits and points) stands in a
  formula after a prefix that is tokenized without an error, the buffer is closed at the
  end of the literal. If \<open>strtod\<close> reads the whole literal and the value is a normal
  double, a number token with that value and the offset of the literal's first character
  is made; otherwise \<open>tokenize\<close> fails with a parse exception at the offset of the
  literal's first character. So \<open>0\<close> and \<open>3.3.3\<close> are refused, and a digit
  repeated 500 times is refused at offset 0.
\<close>

theorem numeric_literal_validation:
  "(\<forall>pre ts lit post.
      (pre = [] \<or> \<not> numeric_symbol (last pre)) \<and> tokenize pre = Inr ts
      \<and> lit \<noteq> [] \<and> (\<forall>c \<in> set lit. numeric_symbol c)
      \<and> (post = [] \<or> \<not> numeric_symbol (hd post)) \<longrightarrow>
      (snd (strtod lit) = length lit \<and> isnormal (fst (strtod lit)) \<longrightarrow>
         tokenize (pre @ lit) = Inr (ts @ [number_token (int (length pre)) (fst (strtod lit))]))
      \<and> (snd (strtod lit) \<noteq> length lit \<or> \<not> isnormal (fst (strtod lit)) \<longrightarrow>
         tokenize (pre @ lit @ post) = Inl (parse_exception (int (length pre)) ''Number too long'')))
   \<and> calculate ''0'' = Inl (parse_exception 0 ''Number too long'')
   \<and> calculate ''3.3.3'' = Inl (parse_exception 0 ''Number too long'')
   \<and> (\<forall>d. is_digit d \<longrightarrow>
         calculate (replicate 500 d) = Inl (parse_exception 0 ''Number too long''))"
proof (intro conjI allI impI)
  fix pre ts lit post
  assume h: "(pre = [] \<or> \<not> numeric_symbol (last pre)) \<and> tokenize pre = Inr ts
      \<and> lit \<noteq> [] \<and> (\<forall>c \<in> set lit. numeric_symbol c)
      \<and> (post = [] \<or> \<not> numeric_symbol (hd post))"
  {
    assume "snd (strtod lit) = length lit \<and> isnormal (fst (strtod lit))"
    then show "tokenize (pre @ lit) = Inr (ts @ [number_token (int (length pre)) (fst (strtod lit))])"
      using h tokenize_literal[of pre ts lit "[]"]
      by (simp add: parse_number_def split: prod.splits)
  }
  {
    assume "snd (strtod lit) \<noteq> length lit \<or> \<not> isnormal (fst (strtod lit))"
    then show "tokenize (pre @ lit @ post) = Inl (parse_exception (int (length pre)) ''Number too long'')"
      using h tokenize_literal[of pre ts lit post]
      by (auto simp add: parse_number_def split: prod.splits)
  }
next
  show "calculate ''0'' = Inl (parse_exception 0 ''Number too long'')"
    by (simp add: run_defs pow2_pos not_le)
next
  show "calculate ''3.3.3'' = Inl (parse_exception 0 ''Number too long'')"
    by (simp add: run_defs)
next
  fix d
  assume "is_digit d"
  then show "calculate (replicate 500 d) = Inl (parse_exception 0 ''Number too long'')"
    by (rule calculate_repeated_digit) simp
qed

theorem numeric_literal_validation_witness:
  "tokenize ''2+3'' = Inr [number_token 0 (Finite False 2), make_token T_plus 1, number_token 2 (Finite False 3)]
   \<and> tokenize ''2+3.3.3*4'' = Inl (parse_exception 2 ''Number too long'')
   \<and> calculate (replicate 500 CHR ''3'') = Inl (parse_exception 0 ''Number too long'')"
proof -
  have pre: "tokenize ''2+'' = Inr [number_token 0 (Finite False 2), make_token T_plus 1]"
    by (simp add: run_defs)
  have good: "strtod ''3'' = (Finite False 3, 1)" by (simp add: run_defs)
  have bad: "snd (strtod ''3.3.3'') = 3" by (simp add: run_defs)
  have digit: "is_digit CHR ''3''" by (simp add: is_digit_def)
  from numeric_literal_validation have
    "(''2+'' = [] \<or> \<not> numeric_symbol (last ''2+'')) \<and> tokenize ''2+'' = Inr [number_token 0 (Finite False 2), make_token T_plus 1]
      \<and> ''3'' \<noteq> [] \<and> (\<forall>c \<in> set ''3''. numeric_symbol c)
      \<and> ([] = [] \<or> \<not> numeric_symbol (hd [])) \<longrightarrow>
      (snd (strtod ''3'') = length ''3'' \<and> isnormal (fst (strtod ''3'')) \<longrightarrow>
         tokenize (''2+'' @ ''3'') = Inr ([number_token 0 (Finite False 2), make_token T_plus 1] @ [number_token (int (length ''2+'')) (fst (strtod ''3''))]))"
    by blast
  then have a: "tokenize ''2+3'' = Inr [number_token 0 (Finite False 2), make_token T_plus 1, number_token 2 (Finite False 3)]"
    using pre good by (simp add: numeric_symbol_def)
  from numeric_literal_validation have
    "(''2+'' = [] \<or> \<not> numeric_symbol (last ''2+'')) \<and> tokenize ''2+'' = Inr [number_token 0 (Finite False 2), make_token T_plus 1]
      \<and> ''3.3.3'' \<noteq> [] \<and> (\<forall>c \<in> set ''3.3.3''. numeric_symbol c)
      \<and> (''*4'' = [] \<or> \<not> numeric_symbol (hd ''*4'')) \<longrightarrow>
      (snd (strtod ''3.3.3'') \<noteq> length ''3.3.3'' \<or> \<not> isnormal (fst (strtod ''3.3.3'')) \<longrightarrow>
         tokenize (''2+'' @ ''3.3.3'' @ ''*4'') = Inl (parse_exception (int (length ''2+'')) ''Number too long''))"
    by blast
  then have b: "tokenize ''2+3.3.3*4'' = Inl (parse_exception 2 ''Number too long'')"
    using pre bad by (simp add: numeric_symbol_def)
  from numeric_literal_validation digit
  have c: "calculate (replicate 500 CHR ''3'') = Inl (parse_exception 0 ''Number too long'')"
    by blast
  from a b c show ?thesis by simp
qed

lemma decimal_append: "decimal acc (xs @ ys) = decimal (decimal acc xs) ys"
  by (induction xs arbitrary: acc) simp_all

lemma calculate_literal:
  assumes "lit \<noteq> []" "\<forall>c \<in> set lit. numeric_symbol c" "parse_number lit 0 = Inl e"
  shows "calculate lit = Inl e"
  using tokenize_literal[of "[]" "[]" lit "[]"] assms
  by (simp add: calculate_def parse_def tokenize_def)

lemma tiny_le: "1 / 10 ^ 321 \<le> pow2 (- 1023)"
  by (simp add: pow2_def field_simps)

lemma strtod_point:
  assumes "\<forall>c \<in> set fp. is_digit c"
  shows "strtod (''0.'' @ fp) = (round_double False (of_nat (decimal 0 fp) / 10 ^ length fp), 2 + length fp)"
proof -
  have nd: "\<not> is_digit CHR ''.''" and z: "is_digit CHR ''0''" by (simp_all add: is_digit_def)
  have tw: "takeWhile is_digit (''0.'' @ fp) = ''0''" using nd z by simp
  have dw: "dropWhile is_digit (''0.'' @ fp) = CHR ''.'' # fp" using nd z by simp
  have fp: "takeWhile is_digit fp = fp" using assms by (simp add: takeWhile_eq_all_conv)
  have dec: "decimal 0 (''0'' @ fp) = decimal 0 fp" by (simp add: digit_value_def)
  have "strtod (''0.'' @ fp) =
        (round_double False (of_nat (decimal 0 (''0'' @ fp)) / 10 ^ length fp), 1 + (1 + length fp))"
    unfolding strtod_def tw dw Let_def list.case list.sel fp by simp
  then show ?thesis unfolding dec by simp
qed

lemma subnormal_literal:
  assumes "320 \<le> n"
  shows "parse_number (''0.'' @ replicate n CHR ''0'' @ ''1'') p = Inl (parse_exception p ''Number too long'')"
proof -
  let ?fp = "replicate n CHR ''0'' @ ''1''"
  have digits: "\<forall>c \<in> set ?fp. is_digit c" by (auto simp: is_digit_def)
  have dec: "decimal 0 ?fp = 1"
    by (simp add: decimal_append decimal_zeros digit_value_def)
  have st: "strtod (''0.'' @ ?fp) = (round_double False (1 / 10 ^ Suc n), 3 + n)"
    unfolding strtod_point[OF digits] dec by simp
  have "(10::rat) ^ 321 \<le> 10 ^ Suc n" using assms by (intro power_increasing) simp_all
  then have "(1::rat) / 10 ^ Suc n \<le> 1 / 10 ^ 321" by (intro divide_left_mono) simp_all
  then have small: "(1::rat) / 10 ^ Suc n \<le> pow2 (- 1023)" using tiny_le by (rule order_trans)
  have pos: "(0::rat) < 1 / 10 ^ Suc n" by simp
  obtain y where "round_double False (1 / 10 ^ Suc n) = Finite False y" "y < pow2 (- 1022)"
    using round_double_subnormal[OF pos small, of False] by auto
  then show ?thesis unfolding parse_number_def st by (simp add: not_le)
qed

lemma calculate_subnormal_literal:
  assumes "320 \<le> n"
  shows "calculate (''0.'' @ replicate n CHR ''0'' @ ''1'') = Inl (parse_exception 0 ''Number too long'')"
proof (rule calculate_literal)
  show "parse_number (''0.'' @ replicate n CHR ''0'' @ ''1'') 0 = Inl (parse_exception 0 ''Number too long'')"
    using assms by (rule subnormal_literal)
qed (auto simp: numeric_symbol_def)

text \<open>
  C10. Whatever makes a numeric literal invalid, the parse exception carries the one
  message "Number too long": \<open>parse_number\<close> has no other error, and the message is
  this one for a literal that is read only in part (\<open>3.3.3\<close>), for \<open>0\<close>, for a
  literal whose value is subnormal (\<open>10\<^sup>-\<^sup>3\<^sup>2\<^sup>1\<close>) and for a literal that overflows (400
  nines).
\<close>

theorem invalid_literal_message:
  "(\<forall>number number_start e.
      parse_number number number_start = Inl e \<longrightarrow> e = parse_exception number_start ''Number too long'')
   \<and> calculate ''3.3.3'' = Inl (parse_exception 0 ''Number too long'')
   \<and> calculate ''0'' = Inl (parse_exception 0 ''Number too long'')
   \<and> calculate (''0.'' @ replicate 320 CHR ''0'' @ ''1'') = Inl (parse_exception 0 ''Number too long'')
   \<and> calculate (replicate 400 CHR ''9'') = Inl (parse_exception 0 ''Number too long'')"
proof (intro conjI allI impI)
  fix number number_start e
  assume "parse_number number number_start = Inl e"
  then show "e = parse_exception number_start ''Number too long''"
    by (auto simp: parse_number_def split: prod.splits if_splits)
next
  show "calculate ''3.3.3'' = Inl (parse_exception 0 ''Number too long'')"
    by (simp add: run_defs)
next
  show "calculate ''0'' = Inl (parse_exception 0 ''Number too long'')"
    by (simp add: run_defs pow2_pos not_le)
next
  show "calculate (''0.'' @ replicate 320 CHR ''0'' @ ''1'') = Inl (parse_exception 0 ''Number too long'')"
    by (rule calculate_subnormal_literal) simp
next
  have "is_digit CHR ''9''" by (simp add: is_digit_def)
  then show "calculate (replicate 400 CHR ''9'') = Inl (parse_exception 0 ''Number too long'')"
    by (rule calculate_repeated_digit) simp
qed

theorem invalid_literal_message_witness:
  "parse_number ''1..2'' 7 = Inl (parse_exception 7 ''Number too long'')"
proof -
  have "parse_number ''1..2'' 7 = Inl (parse_exception 7 ''Number too long'')"
    by (simp add: run_defs)
  moreover from invalid_literal_message have
    "parse_number ''1..2'' 7 = Inl (parse_exception 7 ''Number too long'') \<longrightarrow>
     parse_exception 7 ''Number too long'' = parse_exception 7 ''Number too long''"
    by blast
  ultimately show ?thesis by simp
qed

section \<open>The command line on a parse exception\<close>

text \<open>
  C3 (as amended). When \<open>calculate\<close> fails with a parse exception, \<open>main\<close> writes four
  lines to the error stream and returns the failure status: the line "Invalid input:",
  the formula between double quotes, a line of one more space than the offset of the
  exception followed by a caret, and the message. Because of the opening quote the caret
  stands in the column of the character at that offset in the line above.
\<close>

theorem cli_error_report:
  assumes "calculate formula = Inl (parse_exception position message)"
  shows "main formula =
           Exited []
             [Text_line ''Invalid input:'',
              Text_line ([CHR 0x22] @ formula @ [CHR 0x22]),
              Text_line (replicate (nat (position + 1)) CHR '' '' @ ''^''),
              Text_line message]
             EXIT_FAILURE
         \<and> (0 \<le> position \<and> position < int (length formula) \<longrightarrow>
              ([CHR 0x22] @ formula @ [CHR 0x22]) ! nat (position + 1) = formula ! nat position
              \<and> (replicate (nat (position + 1)) CHR '' '' @ ''^'') ! nat (position + 1) = CHR ''^'')"
proof
  show "main formula =
           Exited []
             [Text_line ''Invalid input:'',
              Text_line ([CHR 0x22] @ formula @ [CHR 0x22]),
              Text_line (replicate (nat (position + 1)) CHR '' '' @ ''^''),
              Text_line message]
             EXIT_FAILURE"
    using assms by (simp add: main_def)
next
  show "0 \<le> position \<and> position < int (length formula) \<longrightarrow>
              ([CHR 0x22] @ formula @ [CHR 0x22]) ! nat (position + 1) = formula ! nat position
              \<and> (replicate (nat (position + 1)) CHR '' '' @ ''^'') ! nat (position + 1) = CHR ''^''"
  proof
    assume p: "0 \<le> position \<and> position < int (length formula)"
    then have n: "nat (position + 1) = Suc (nat position)" "nat position < length formula" by auto
    have "(replicate (nat (position + 1)) CHR '' '' @ ''^'') ! nat (position + 1) = CHR ''^''"
      using nth_append_length[of "replicate (nat (position + 1)) CHR '' ''" "CHR ''^''" "[]"] by simp
    moreover have "([CHR 0x22] @ formula @ [CHR 0x22]) ! nat (position + 1) = formula ! nat position"
      using n by (simp add: nth_append)
    ultimately show "([CHR 0x22] @ formula @ [CHR 0x22]) ! nat (position + 1) = formula ! nat position
              \<and> (replicate (nat (position + 1)) CHR '' '' @ ''^'') ! nat (position + 1) = CHR ''^''"
      by simp
  qed
qed

theorem cli_error_report_witness:
  "main ''3 + + 2'' =
     Exited []
       [Text_line ''Invalid input:'',
        Text_line ([CHR 0x22] @ ''3 + + 2'' @ [CHR 0x22]),
        Text_line (''     '' @ ''^''),
        Text_line ''Unexpected token'']
       EXIT_FAILURE"
proof -
  have "calculate ''3 + + 2'' = Inl (parse_exception 4 ''Unexpected token'')"
    by (simp add: run_defs)
  from cli_error_report[OF this] show ?thesis by (simp add: numeral_eq_Suc)
qed

text \<open>
  On the formula \<open>a\<close> the exception is at offset 0, yet the caret line holds one space
  before the caret, not none; and the formula is written between quotes after a heading.
\<close>

theorem cli_caret_line_counterexample:
  "calculate ''a'' = Inl (parse_exception 0 ''Unexpected symbol'')
   \<and> main ''a'' =
       Exited []
         [Text_line ''Invalid input:'',
          Text_line [CHR 0x22, CHR ''a'', CHR 0x22],
          Text_line '' ^'',
          Text_line ''Unexpected symbol'']
         EXIT_FAILURE
   \<and> '' ^'' \<noteq> replicate (nat 0) CHR '' '' @ ''^''"
  by (simp add: main_def run_defs EXIT_FAILURE_def)

section \<open>Unary minus\<close>

text \<open>
  C7. Where the first token of a range is a minus: if it is also the last token of the
  range, \<open>parse_operand\<close> fails with a parse exception at the offset of the minus and
  the message "Orphan minus"; otherwise the operand that starts at the next token is
  parsed by \<open>parse_operand\<close> again and put under one \<open>Negative\<close> node. So \<open>--5\<close> is
  parsed to a negation of a negation, and \<open>calculate\<close> gives \<open>-5\<close> for \<open>-5\<close>.
\<close>

theorem unary_minus:
  "(\<forall>tokens start end_index t.
      token_at tokens start = Inr t \<and> type t = T_minus \<longrightarrow>
      (start = end_index \<longrightarrow>
         parse_operand tokens start end_index = Inl (parse_exception (start_position t) ''Orphan minus''))
      \<and> (start \<noteq> end_index \<longrightarrow>
         parse_operand tokens start end_index =
           (case parse_operand tokens (start + 1) end_index of
              Inl e \<Rightarrow> Inl e
            | Inr content \<Rightarrow> Inr (Negative content))))
   \<and> parse ''--5'' = Inr (Negative (Negative (Number (Finite False 5))))
   \<and> calculate ''-5'' = Inr (Finite True 5)"
proof (intro conjI allI impI)
  fix tokens start end_index t
  assume h: "token_at tokens start = Inr t \<and> type t = T_minus"
  {
    assume "start = end_index"
    with h show "parse_operand tokens start end_index = Inl (parse_exception (start_position t) ''Orphan minus'')"
      by (simp add: parse_operand.simps)
  }
  {
    assume "start \<noteq> end_index"
    with h show "parse_operand tokens start end_index =
           (case parse_operand tokens (start + 1) end_index of
              Inl e \<Rightarrow> Inl e
            | Inr content \<Rightarrow> Inr (Negative content))"
      by (simp add: parse_operand.simps)
  }
next
  show "parse ''--5'' = Inr (Negative (Negative (Number (Finite False 5))))"
    by (simp add: run_defs)
next
  show "calculate ''-5'' = Inr (Finite True 5)"
    by (simp add: run_defs)
qed

theorem unary_minus_witness:
  "parse_operand [make_token T_minus 0] 0 0 = Inl (parse_exception 0 ''Orphan minus'')
   \<and> parse_operand [make_token T_minus 0, number_token 1 (Finite False 5)] 0 1 =
       Inr (Negative (Number (Finite False 5)))"
proof -
  have a: "token_at [make_token T_minus 0] 0 = Inr (make_token T_minus 0) \<and> type (make_token T_minus 0) = T_minus"
    by (simp add: token_at_def make_token_def)
  have b: "token_at [make_token T_minus 0, number_token 1 (Finite False 5)] 0 = Inr (make_token T_minus 0)
           \<and> type (make_token T_minus 0) = T_minus"
    by (simp add: token_at_def make_token_def)
  have c: "parse_operand [make_token T_minus 0, number_token 1 (Finite False 5)] (0 + 1) 1 =
           Inr (Number (Finite False 5))"
    by (simp add: token_at_def make_token_def number_token_def token_value_def parse_operand.simps)
  from unary_minus a
  have "parse_operand [make_token T_minus 0] 0 0 =
          Inl (parse_exception (start_position (make_token T_minus 0)) ''Orphan minus'')"
    by blast
  moreover from unary_minus b
  have "parse_operand [make_token T_minus 0, number_token 1 (Finite False 5)] 0 1 =
          (case parse_operand [make_token T_minus 0, number_token 1 (Finite False 5)] (0 + 1) 1 of
             Inl e \<Rightarrow> Inl e
           | Inr content \<Rightarrow> Inr (Negative content))"
    by (metis zero_neq_one)
  ultimately show ?thesis unfolding c by (simp add: make_token_def)
qed

section \<open>Parentheses\<close>

text \<open>The tokens with indices from a to b.\<close>

definition token_slice :: "token list \<Rightarrow> int \<Rightarrow> int \<Rightarrow> token list" where
  "token_slice tokens a b = take (nat (b - a + 1)) (drop (nat a) tokens)"

text \<open>
  By how many the closing parentheses outnumber the opening ones among the tokens from
  \<open>a\<close> to \<open>b\<close>.
\<close>

definition closing_excess :: "token list \<Rightarrow> int \<Rightarrow> int \<Rightarrow> int" where
  "closing_excess tokens a b =
     int (length (filter (\<lambda>t. type t = T_closing_parenthesis) (token_slice tokens a b)))
     - int (length (filter (\<lambda>t. type t = T_opening_parenthesis) (token_slice tokens a b)))"

text \<open>
  The closing parenthesis that matches the opening one at \<open>start\<close> is at the first
  index after it where the closing parentheses outnumber the opening ones.
\<close>

definition matching_parenthesis :: "token list \<Rightarrow> int \<Rightarrow> int \<Rightarrow> bool" where
  "matching_parenthesis tokens start c =
     (start < c \<and> closing_excess tokens (start + 1) c = 1
      \<and> (\<forall>j. start < j \<and> j < c \<longrightarrow> closing_excess tokens (start + 1) j \<le> 0))"

lemma token_slice_empty: "b < a \<Longrightarrow> token_slice tokens a b = []"
  by (simp add: token_slice_def)

lemma token_slice_step:
  assumes "0 \<le> a" "a \<le> b" "a < int (length tokens)"
  shows "token_slice tokens a b = tokens ! nat a # token_slice tokens (a + 1) b"
proof -
  have d: "drop (nat a) tokens = tokens ! nat a # drop (nat (a + 1)) tokens"
    using assms by (simp add: Cons_nth_drop_Suc nat_add_distrib)
  have n: "nat (b - a + 1) = Suc (nat (b - (a + 1) + 1))" using assms by simp
  show ?thesis unfolding token_slice_def d n by simp
qed

lemma closing_excess_empty: "b < a \<Longrightarrow> closing_excess tokens a b = 0"
  by (simp add: closing_excess_def token_slice_empty)

lemma closing_excess_step:
  assumes "0 \<le> a" "a \<le> b" "a < int (length tokens)"
  shows "closing_excess tokens a b =
     (if type (tokens ! nat a) = T_closing_parenthesis then 1
      else if type (tokens ! nat a) = T_opening_parenthesis then - 1 else 0)
     + closing_excess tokens (a + 1) b"
  unfolding closing_excess_def token_slice_step[OF assms] by simp

text \<open>
  The loop returns the first index at which the closing parentheses read since \<open>i\<close>
  outnumber the opening ones by more than \<open>depth\<close>, or \<open>-1\<close> where the range has no such
  index.
\<close>

lemma find_closing_loop_spec:
  assumes "0 \<le> i" "end_index < int (length tokens)" "0 \<le> depth"
  shows "\<exists>c. find_closing_loop tokens i end_index depth = Inr c
     \<and> (if \<exists>j. i \<le> j \<and> j \<le> end_index \<and> closing_excess tokens i j = depth + 1
         then i \<le> c \<and> c \<le> end_index \<and> closing_excess tokens i c = depth + 1
              \<and> (\<forall>j. i \<le> j \<and> j < c \<longrightarrow> closing_excess tokens i j \<le> depth)
         else c = - 1)"
  using assms
proof (induction tokens i end_index depth rule: find_closing_loop.induct)
  case (1 tokens i end_index depth)
  show ?case
  proof (cases "i \<le> end_index")
    case False
    then have "find_closing_loop tokens i end_index depth = Inr (- 1)"
      by (subst find_closing_loop.simps) simp
    with False show ?thesis by auto
  next
    case True
    with "1.prems" have t: "token_at tokens i = Inr (tokens ! nat i)"
      by (simp add: token_at_def)
    have step: "\<And>j. i \<le> j \<Longrightarrow> closing_excess tokens i j =
        (if type (tokens ! nat i) = T_closing_parenthesis then 1
         else if type (tokens ! nat i) = T_opening_parenthesis then - 1 else 0)
        + closing_excess tokens (i + 1) j"
      using closing_excess_step[of i _ tokens] "1.prems" True by simp
    have self: "closing_excess tokens (i + 1) i = 0" by (simp add: closing_excess_empty)
    consider (close_here) "type (tokens ! nat i) = T_closing_parenthesis" "depth = 0"
      | (close_inner) "type (tokens ! nat i) = T_closing_parenthesis" "0 < depth"
      | (open_inner) "type (tokens ! nat i) = T_opening_parenthesis"
      | (no_paren) "type (tokens ! nat i) \<noteq> T_closing_parenthesis" "type (tokens ! nat i) \<noteq> T_opening_parenthesis"
      using "1.prems"(3) by force
    then show ?thesis
    proof cases
      case close_here
      have r: "find_closing_loop tokens i end_index depth = Inr i"
        using True t close_here by (subst find_closing_loop.simps) simp
      have e: "closing_excess tokens i i = depth + 1"
        using step[of i] self close_here by simp
      show ?thesis using r e True by auto
    next
      case close_inner
      have r: "find_closing_loop tokens i end_index depth = find_closing_loop tokens (i + 1) end_index (depth - 1)"
        using True t close_inner by (subst find_closing_loop.simps) simp
      from "1.IH"(1)[OF True t close_inner(1) _ close_inner(2)] close_inner "1.prems"
      obtain c where c: "find_closing_loop tokens (i + 1) end_index (depth - 1) = Inr c"
        and spec: "if \<exists>j. i + 1 \<le> j \<and> j \<le> end_index \<and> closing_excess tokens (i + 1) j = depth - 1 + 1
         then i + 1 \<le> c \<and> c \<le> end_index \<and> closing_excess tokens (i + 1) c = depth - 1 + 1
              \<and> (\<forall>j. i + 1 \<le> j \<and> j < c \<longrightarrow> closing_excess tokens (i + 1) j \<le> depth - 1)
         else c = - 1"
        by auto
      have ex: "(\<exists>j. i \<le> j \<and> j \<le> end_index \<and> closing_excess tokens i j = depth + 1)
            \<longleftrightarrow> (\<exists>j. i + 1 \<le> j \<and> j \<le> end_index \<and> closing_excess tokens (i + 1) j = depth - 1 + 1)"
      proof
        assume "\<exists>j. i \<le> j \<and> j \<le> end_index \<and> closing_excess tokens i j = depth + 1"
        then obtain j where j: "i \<le> j" "j \<le> end_index" "closing_excess tokens i j = depth + 1" by blast
        have "j \<noteq> i" using j(3) step[of i] self close_inner by auto
        with j show "\<exists>j. i + 1 \<le> j \<and> j \<le> end_index \<and> closing_excess tokens (i + 1) j = depth - 1 + 1"
          using step[of j] close_inner by (intro exI[of _ j]) auto
      next
        assume "\<exists>j. i + 1 \<le> j \<and> j \<le> end_index \<and> closing_excess tokens (i + 1) j = depth - 1 + 1"
        then obtain j where j: "i + 1 \<le> j" "j \<le> end_index" "closing_excess tokens (i + 1) j = depth - 1 + 1" by blast
        then show "\<exists>j. i \<le> j \<and> j \<le> end_index \<and> closing_excess tokens i j = depth + 1"
          using step[of j] close_inner by (intro exI[of _ j]) auto
      qed
      show ?thesis
      proof (cases "\<exists>j. i \<le> j \<and> j \<le> end_index \<and> closing_excess tokens i j = depth + 1")
        case False
        with ex spec r c show ?thesis by auto
      next
        case ex1: True
        with ex spec have s: "i + 1 \<le> c" "c \<le> end_index" "closing_excess tokens (i + 1) c = depth"
          "\<forall>j. i + 1 \<le> j \<and> j < c \<longrightarrow> closing_excess tokens (i + 1) j \<le> depth - 1"
          by auto
        have a: "closing_excess tokens i c = depth + 1" using step[of c] s close_inner by simp
        have b: "\<forall>j. i \<le> j \<and> j < c \<longrightarrow> closing_excess tokens i j \<le> depth"
        proof (intro allI impI)
          fix j assume j: "i \<le> j \<and> j < c"
          show "closing_excess tokens i j \<le> depth"
          proof (cases "j = i")
            case True
            then show ?thesis using step[of i] self close_inner by simp
          next
            case False
            with j s(4) have "closing_excess tokens (i + 1) j \<le> depth - 1" by auto
            then show ?thesis using step[of j] j close_inner by simp
          qed
        qed
        show ?thesis using r c ex1 s a b by auto
      qed
    next
      case open_inner
      have r: "find_closing_loop tokens i end_index depth = find_closing_loop tokens (i + 1) end_index (depth + 1)"
        using True t open_inner by (subst find_closing_loop.simps) simp
      from "1.IH"(2)[OF True t _ open_inner] open_inner "1.prems"
      obtain c where c: "find_closing_loop tokens (i + 1) end_index (depth + 1) = Inr c"
        and spec: "if \<exists>j. i + 1 \<le> j \<and> j \<le> end_index \<and> closing_excess tokens (i + 1) j = depth + 1 + 1
         then i + 1 \<le> c \<and> c \<le> end_index \<and> closing_excess tokens (i + 1) c = depth + 1 + 1
              \<and> (\<forall>j. i + 1 \<le> j \<and> j < c \<longrightarrow> closing_excess tokens (i + 1) j \<le> depth + 1)
         else c = - 1"
        by auto
      have ex: "(\<exists>j. i \<le> j \<and> j \<le> end_index \<and> closing_excess tokens i j = depth + 1)
            \<longleftrightarrow> (\<exists>j. i + 1 \<le> j \<and> j \<le> end_index \<and> closing_excess tokens (i + 1) j = depth + 1 + 1)"
      proof
        assume "\<exists>j. i \<le> j \<and> j \<le> end_index \<and> closing_excess tokens i j = depth + 1"
        then obtain j where j: "i \<le> j" "j \<le> end_index" "closing_excess tokens i j = depth + 1" by blast
        have "j \<noteq> i" using j(3) step[of i] self open_inner "1.prems"(3) by auto
        with j show "\<exists>j. i + 1 \<le> j \<and> j \<le> end_index \<and> closing_excess tokens (i + 1) j = depth + 1 + 1"
          using step[of j] open_inner by (intro exI[of _ j]) auto
      next
        assume "\<exists>j. i + 1 \<le> j \<and> j \<le> end_index \<and> closing_excess tokens (i + 1) j = depth + 1 + 1"
        then obtain j where j: "i + 1 \<le> j" "j \<le> end_index" "closing_excess tokens (i + 1) j = depth + 1 + 1" by blast
        then show "\<exists>j. i \<le> j \<and> j \<le> end_index \<and> closing_excess tokens i j = depth + 1"
          using step[of j] open_inner by (intro exI[of _ j]) auto
      qed
      show ?thesis
      proof (cases "\<exists>j. i \<le> j \<and> j \<le> end_index \<and> closing_excess tokens i j = depth + 1")
        case False
        with ex spec r c show ?thesis by auto
      next
        case ex1: True
        with ex spec have s: "i + 1 \<le> c" "c \<le> end_index" "closing_excess tokens (i + 1) c = depth + 2"
          "\<forall>j. i + 1 \<le> j \<and> j < c \<longrightarrow> closing_excess tokens (i + 1) j \<le> depth + 1"
          by auto
        have a: "closing_excess tokens i c = depth + 1" using step[of c] s open_inner by simp
        have b: "\<forall>j. i \<le> j \<and> j < c \<longrightarrow> closing_excess tokens i j \<le> depth"
        proof (intro allI impI)
          fix j assume j: "i \<le> j \<and> j < c"
          show "closing_excess tokens i j \<le> depth"
          proof (cases "j = i")
            case True
            then show ?thesis using step[of i] self open_inner "1.prems"(3) by simp
          next
            case False
            with j s(4) have "closing_excess tokens (i + 1) j \<le> depth + 1" by auto
            then show ?thesis using step[of j] j open_inner by simp
          qed
        qed
        show ?thesis using r c ex1 s a b by auto
      qed
    next
      case no_paren
      have r: "find_closing_loop tokens i end_index depth = find_closing_loop tokens (i + 1) end_index depth"
        using True t no_paren by (subst find_closing_loop.simps) simp
      from "1.IH"(3)[OF True t no_paren] "1.prems"
      obtain c where c: "find_closing_loop tokens (i + 1) end_index depth = Inr c"
        and spec: "if \<exists>j. i + 1 \<le> j \<and> j \<le> end_index \<and> closing_excess tokens (i + 1) j = depth + 1
         then i + 1 \<le> c \<and> c \<le> end_index \<and> closing_excess tokens (i + 1) c = depth + 1
              \<and> (\<forall>j. i + 1 \<le> j \<and> j < c \<longrightarrow> closing_excess tokens (i + 1) j \<le> depth)
         else c = - 1"
        by auto
      have ex: "(\<exists>j. i \<le> j \<and> j \<le> end_index \<and> closing_excess tokens i j = depth + 1)
            \<longleftrightarrow> (\<exists>j. i + 1 \<le> j \<and> j \<le> end_index \<and> closing_excess tokens (i + 1) j = depth + 1)"
      proof
        assume "\<exists>j. i \<le> j \<and> j \<le> end_index \<and> closing_excess tokens i j = depth + 1"
        then obtain j where j: "i \<le> j" "j \<le> end_index" "closing_excess tokens i j = depth + 1" by blast
        have "j \<noteq> i" using j(3) step[of i] self no_paren "1.prems"(3) by auto
        with j show "\<exists>j. i + 1 \<le> j \<and> j \<le> end_index \<and> closing_excess tokens (i + 1) j = depth + 1"
          using step[of j] no_paren by (intro exI[of _ j]) auto
      next
        assume "\<exists>j. i + 1 \<le> j \<and> j \<le> end_index \<and> closing_excess tokens (i + 1) j = depth + 1"
        then obtain j where j: "i + 1 \<le> j" "j \<le> end_index" "closing_excess tokens (i + 1) j = depth + 1" by blast
        then show "\<exists>j. i \<le> j \<and> j \<le> end_index \<and> closing_excess tokens i j = depth + 1"
          using step[of j] no_paren by (intro exI[of _ j]) auto
      qed
      show ?thesis
      proof (cases "\<exists>j. i \<le> j \<and> j \<le> end_index \<and> closing_excess tokens i j = depth + 1")
        case False
        with ex spec r c show ?thesis by auto
      next
        case ex1: True
        with ex spec have s: "i + 1 \<le> c" "c \<le> end_index" "closing_excess tokens (i + 1) c = depth + 1"
          "\<forall>j. i + 1 \<le> j \<and> j < c \<longrightarrow> closing_excess tokens (i + 1) j \<le> depth"
          by auto
        have a: "closing_excess tokens i c = depth + 1" using step[of c] s no_paren by simp
        have b: "\<forall>j. i \<le> j \<and> j < c \<longrightarrow> closing_excess tokens i j \<le> depth"
        proof (intro allI impI)
          fix j assume j: "i \<le> j \<and> j < c"
          show "closing_excess tokens i j \<le> depth"
          proof (cases "j = i")
            case True
            then show ?thesis using step[of i] self no_paren "1.prems"(3) by simp
          next
            case False
            with j s(4) have "closing_excess tokens (i + 1) j \<le> depth" by auto
            then show ?thesis using step[of j] j no_paren by simp
          qed
        qed
        show ?thesis using r c ex1 s a b by auto
      qed
    qed
  qed
qed

lemma matching_parenthesis_unique:
  assumes "matching_parenthesis tokens start c" "matching_parenthesis tokens start c'"
  shows "c = c'"
proof (rule ccontr)
  assume "c \<noteq> c'"
  then consider "c < c'" | "c' < c" by linarith
  then show False
  proof cases
    case 1
    with assms have "closing_excess tokens (start + 1) c \<le> 0" "closing_excess tokens (start + 1) c = 1"
      by (auto simp: matching_parenthesis_def)
    then show False by simp
  next
    case 2
    with assms have "closing_excess tokens (start + 1) c' \<le> 0" "closing_excess tokens (start + 1) c' = 1"
      by (auto simp: matching_parenthesis_def)
    then show False by simp
  qed
qed

lemma find_closing_parenthesis_matching:
  assumes "0 \<le> start" "end_index < int (length tokens)"
  shows "(\<forall>c. start < c \<and> c \<le> end_index \<longrightarrow> \<not> matching_parenthesis tokens start c) \<longrightarrow>
           find_closing_parenthesis tokens (start + 1) end_index = Inr (- 1)"
    and "start < c \<and> c \<le> end_index \<and> matching_parenthesis tokens start c \<longrightarrow>
           find_closing_parenthesis tokens (start + 1) end_index = Inr c"
proof -
  have "0 \<le> start + 1" using assms(1) by simp
  from find_closing_loop_spec[OF this assms(2), of 0]
  obtain r where r: "find_closing_loop tokens (start + 1) end_index 0 = Inr r"
    and spec: "if \<exists>j. start + 1 \<le> j \<and> j \<le> end_index \<and> closing_excess tokens (start + 1) j = 0 + 1
         then start + 1 \<le> r \<and> r \<le> end_index \<and> closing_excess tokens (start + 1) r = 0 + 1
              \<and> (\<forall>j. start + 1 \<le> j \<and> j < r \<longrightarrow> closing_excess tokens (start + 1) j \<le> 0)
         else r = - 1"
    by blast
  have found: "start < r \<and> r \<le> end_index \<and> matching_parenthesis tokens start r"
    if "\<exists>j. start + 1 \<le> j \<and> j \<le> end_index \<and> closing_excess tokens (start + 1) j = 0 + 1"
    using spec that unfolding matching_parenthesis_def by (simp only: if_True) auto
  have none: "r = - 1"
    if "\<not> (\<exists>j. start + 1 \<le> j \<and> j \<le> end_index \<and> closing_excess tokens (start + 1) j = 0 + 1)"
    using spec that by (simp only: if_False)
  show "(\<forall>c. start < c \<and> c \<le> end_index \<longrightarrow> \<not> matching_parenthesis tokens start c) \<longrightarrow>
           find_closing_parenthesis tokens (start + 1) end_index = Inr (- 1)"
  proof
    assume no: "\<forall>c. start < c \<and> c \<le> end_index \<longrightarrow> \<not> matching_parenthesis tokens start c"
    have "\<not> (\<exists>j. start + 1 \<le> j \<and> j \<le> end_index \<and> closing_excess tokens (start + 1) j = 0 + 1)"
      using found no by blast
    from none[OF this] r show "find_closing_parenthesis tokens (start + 1) end_index = Inr (- 1)"
      by (simp only: find_closing_parenthesis_def)
  qed
  show "start < c \<and> c \<le> end_index \<and> matching_parenthesis tokens start c \<longrightarrow>
           find_closing_parenthesis tokens (start + 1) end_index = Inr c"
  proof
    assume c: "start < c \<and> c \<le> end_index \<and> matching_parenthesis tokens start c"
    then have "\<exists>j. start + 1 \<le> j \<and> j \<le> end_index \<and> closing_excess tokens (start + 1) j = 0 + 1"
      by (intro exI[of _ c]) (auto simp: matching_parenthesis_def)
    from found[OF this] c have "r = c" using matching_parenthesis_unique by blast
    with r show "find_closing_parenthesis tokens (start + 1) end_index = Inr c"
      by (simp only: find_closing_parenthesis_def)
  qed
qed

text \<open>
  C6. Where the first token of a range is an opening parenthesis: if no closing
  parenthesis in the range matches it, \<open>parse_operand\<close> fails with a parse exception
  at the offset of the opening token and the message "Unclosed parenthesis"; if the
  matching one is the next token, it fails at that offset with the message
  "Empty parentheses"; otherwise the tokens between the two are parsed by
  \<open>parse_range\<close> at the lowest priority and the result is put under a
  \<open>Parentheses\<close> node, whose value is the value of its content.
\<close>

theorem parenthesized_operand:
  "(\<forall>(tokens :: token list) start end_index.
      0 \<le> start \<and> start \<le> end_index \<and> end_index < int (length tokens)
      \<and> type (tokens ! nat start) = T_opening_parenthesis \<longrightarrow>
      ((\<forall>c. start < c \<and> c \<le> end_index \<longrightarrow> \<not> matching_parenthesis tokens start c) \<longrightarrow>
         parse_operand tokens start end_index =
           Inl (parse_exception (start_position (tokens ! nat start)) ''Unclosed parenthesis''))
      \<and> (start + 1 \<le> end_index \<and> matching_parenthesis tokens start (start + 1) \<longrightarrow>
         parse_operand tokens start end_index =
           Inl (parse_exception (start_position (tokens ! nat start)) ''Empty parentheses''))
      \<and> (\<forall>c. start + 1 < c \<and> c \<le> end_index \<and> matching_parenthesis tokens start c \<longrightarrow>
         parse_operand tokens start end_index =
           (case parse_range tokens (start + 1) (c - 1) P_lowest of
              Inl e \<Rightarrow> Inl e
            | Inr content \<Rightarrow> Inr (Parentheses content))))
   \<and> (\<forall>content. calc (Parentheses content) = calc content)"
proof (intro conjI allI impI)
  fix tokens :: "token list" and start end_index
  assume h: "0 \<le> start \<and> start \<le> end_index \<and> end_index < int (length tokens)
      \<and> type (tokens ! nat start) = T_opening_parenthesis"
  then have t: "token_at tokens start = Inr (tokens ! nat start)"
    by (simp add: token_at_def)
  have op: "parse_operand tokens start end_index = parse_parentheses tokens start end_index"
    using h t by (simp add: parse_operand.simps)
  from h have r: "0 \<le> start" "end_index < int (length tokens)" by simp_all
  note m = find_closing_parenthesis_matching[OF r]
  {
    assume "\<forall>c. start < c \<and> c \<le> end_index \<longrightarrow> \<not> matching_parenthesis tokens start c"
    with m(1) have "find_closing_parenthesis tokens (start + 1) end_index = Inr (- 1)" by blast
    then show "parse_operand tokens start end_index =
           Inl (parse_exception (start_position (tokens ! nat start)) ''Unclosed parenthesis'')"
      using op t by (simp add: parse_parentheses.simps)
  }
  {
    assume "start + 1 \<le> end_index \<and> matching_parenthesis tokens start (start + 1)"
    with m(2)[of "start + 1"] have "find_closing_parenthesis tokens (start + 1) end_index = Inr (start + 1)"
      by simp
    then show "parse_operand tokens start end_index =
           Inl (parse_exception (start_position (tokens ! nat start)) ''Empty parentheses'')"
      using op t h by (simp add: parse_parentheses.simps)
  }
  {
    fix c
    assume c: "start + 1 < c \<and> c \<le> end_index \<and> matching_parenthesis tokens start c"
    with m(2)[of c] have "find_closing_parenthesis tokens (start + 1) end_index = Inr c"
      by simp
    then show "parse_operand tokens start end_index =
           (case parse_range tokens (start + 1) (c - 1) P_lowest of
              Inl e \<Rightarrow> Inl e
            | Inr content \<Rightarrow> Inr (Parentheses content))"
      using op c h by (simp add: parse_parentheses.simps)
  }
next
  fix content
  show "calc (Parentheses content) = calc content" by simp
qed

theorem parenthesized_operand_witness:
  "parse_operand [make_token T_opening_parenthesis 0, number_token 1 (Finite False 5)] 0 1 =
     Inl (parse_exception 0 ''Unclosed parenthesis'')
   \<and> parse_operand [make_token T_opening_parenthesis 0, make_token T_closing_parenthesis 1] 0 1 =
     Inl (parse_exception 0 ''Empty parentheses'')
   \<and> parse_operand
       [make_token T_opening_parenthesis 0, number_token 1 (Finite False 5),
        make_token T_closing_parenthesis 2] 0 2 =
     Inr (Parentheses (Number (Finite False 5)))"
proof -
  let ?a = "[make_token T_opening_parenthesis 0, number_token 1 (Finite False 5)]"
  let ?b = "[make_token T_opening_parenthesis 0, make_token T_closing_parenthesis 1]"
  let ?c = "[make_token T_opening_parenthesis 0, number_token 1 (Finite False 5),
        make_token T_closing_parenthesis 2]"
  note defs = matching_parenthesis_def closing_excess_def token_slice_def make_token_def
    number_token_def
  have a: "\<forall>c. 0 < c \<and> c \<le> 1 \<longrightarrow> \<not> matching_parenthesis ?a 0 c"
  proof (intro allI impI)
    fix c :: int
    assume "0 < c \<and> c \<le> 1"
    then have "c = 1" by simp
    then show "\<not> matching_parenthesis ?a 0 c" by (simp add: defs)
  qed
  have b: "matching_parenthesis ?b 0 (0 + 1)" by (simp add: defs)
  have c: "matching_parenthesis ?c 0 2"
  proof -
    have "\<forall>j. (0::int) < j \<and> j < 2 \<longrightarrow> closing_excess ?c (0 + 1) j \<le> 0"
    proof (intro allI impI)
      fix j :: int
      assume "0 < j \<and> j < 2"
      then have "j = 1" by simp
      then show "closing_excess ?c (0 + 1) j \<le> 0" by (simp add: defs)
    qed
    moreover have "closing_excess ?c (0 + 1) 2 = 1" by (simp add: defs)
    ultimately show ?thesis unfolding matching_parenthesis_def by simp
  qed
  have inner: "parse_range ?c (0 + 1) (2 - 1) P_lowest = Inr (Number (Finite False 5))"
    by (simp add: run_defs)
  from parenthesized_operand have
    "0 \<le> (0::int) \<and> (0::int) \<le> 1 \<and> 1 < int (length ?a) \<and> type (?a ! nat 0) = T_opening_parenthesis \<longrightarrow>
     ((\<forall>c. 0 < c \<and> c \<le> 1 \<longrightarrow> \<not> matching_parenthesis ?a 0 c) \<longrightarrow>
         parse_operand ?a 0 1 = Inl (parse_exception (start_position (?a ! nat 0)) ''Unclosed parenthesis''))"
    by blast
  with a have ra: "parse_operand ?a 0 1 = Inl (parse_exception 0 ''Unclosed parenthesis'')"
    by (simp add: make_token_def)
  from parenthesized_operand have
    "0 \<le> (0::int) \<and> (0::int) \<le> 1 \<and> 1 < int (length ?b) \<and> type (?b ! nat 0) = T_opening_parenthesis \<longrightarrow>
     (0 + 1 \<le> (1::int) \<and> matching_parenthesis ?b 0 (0 + 1) \<longrightarrow>
         parse_operand ?b 0 1 = Inl (parse_exception (start_position (?b ! nat 0)) ''Empty parentheses''))"
    by blast
  with b have rb: "parse_operand ?b 0 1 = Inl (parse_exception 0 ''Empty parentheses'')"
    by (simp add: make_token_def)
  from parenthesized_operand have
    "0 \<le> (0::int) \<and> (0::int) \<le> 2 \<and> 2 < int (length ?c) \<and> type (?c ! nat 0) = T_opening_parenthesis \<longrightarrow>
     (0 + 1 < (2::int) \<and> 2 \<le> (2::int) \<and> matching_parenthesis ?c 0 2 \<longrightarrow>
         parse_operand ?c 0 2 =
           (case parse_range ?c (0 + 1) (2 - 1) P_lowest of
              Inl e \<Rightarrow> Inl e
            | Inr content \<Rightarrow> Inr (Parentheses content)))"
    by blast
  with c have rc: "parse_operand ?c 0 2 = Inr (Parentheses (Number (Finite False 5)))"
    unfolding inner by (simp add: make_token_def)
  from ra rb rc show ?thesis by simp
qed

section \<open>Token consumption\<close>

text \<open>The token types that an expression is written with, from left to right.\<close>

fun expression_tokens :: "expression \<Rightarrow> token_type list" where
  "expression_tokens (Add left right) = expression_tokens left @ [T_plus] @ expression_tokens right"
| "expression_tokens (Subtract left right) = expression_tokens left @ [T_minus] @ expression_tokens right"
| "expression_tokens (Multiply left right) = expression_tokens left @ [T_multiply] @ expression_tokens right"
| "expression_tokens (Divide left right) = expression_tokens left @ [T_divide] @ expression_tokens right"
| "expression_tokens (Parentheses content) =
     [T_opening_parenthesis] @ expression_tokens content @ [T_closing_parenthesis]"
| "expression_tokens (Number v) = [T_number]"
| "expression_tokens (Negative content) = T_minus # expression_tokens content"

text \<open>
  The ranges that the parser works on end with the last token or right before a closing
  parenthesis.
\<close>

definition range_closed :: "token list \<Rightarrow> int \<Rightarrow> bool" where
  "range_closed tokens end_index =
     (end_index < int (length tokens)
      \<and> (end_index + 1 = int (length tokens)
          \<or> type (tokens ! nat (end_index + 1)) = T_closing_parenthesis))"

text \<open>
  The expression \<open>e\<close> spans the tokens from \<open>start\<close>: as many as it counts, inside the
  range, and they are the tokens it is written with.
\<close>

definition parsed_span :: "token list \<Rightarrow> int \<Rightarrow> int \<Rightarrow> expression \<Rightarrow> bool" where
  "parsed_span tokens start end_index e =
     (start + consumed_tokens e \<le> end_index + 1
      \<and> map type (token_slice tokens start (start + consumed_tokens e - 1)) = expression_tokens e)"

lemma consumed_tokens_length: "consumed_tokens e = int (length (expression_tokens e))"
  by (induction e) simp_all

lemma token_slice_single:
  "0 \<le> a \<Longrightarrow> a < int (length tokens) \<Longrightarrow> token_slice tokens a a = [tokens ! nat a]"
  using token_slice_step[of a a tokens] by (simp add: token_slice_empty)

lemma token_slice_append:
  assumes "0 \<le> a" "a \<le> b + 1" "b \<le> c"
  shows "token_slice tokens a c = token_slice tokens a b @ token_slice tokens (b + 1) c"
proof -
  have n: "nat (c - a + 1) = nat (b - a + 1) + nat (c - (b + 1) + 1)" using assms by simp
  have d: "drop (nat (b + 1)) tokens = drop (nat (b - a + 1)) (drop (nat a) tokens)"
    using assms by (simp add: nat_add_distrib[symmetric])
  show ?thesis unfolding token_slice_def n d by (simp add: take_add)
qed

lemma operator_token:
  "parse_operator t = Inr op \<Longrightarrow>
   expression_tokens (create_two_operand_expression l op r) = expression_tokens l @ [type t] @ expression_tokens r"
  by (cases op; cases "type t") (simp_all add: parse_operator_def)

lemma first_priority: "0 < priority_value (get_priority op)"
  by (cases op) simp_all

lemma find_closing_loop_type:
  "find_closing_loop tokens i end_index depth = Inr c \<Longrightarrow> c \<noteq> - 1 \<Longrightarrow>
   0 \<le> c \<and> c < int (length tokens) \<and> type (tokens ! nat c) = T_closing_parenthesis"
proof (induction tokens i end_index depth rule: find_closing_loop.induct)
  case (1 tokens i end_index depth)
  from "1.prems" have le: "i \<le> end_index"
    by (subst (asm) find_closing_loop.simps) (simp split: if_splits)
  with "1.prems" obtain t where t: "token_at tokens i = Inr t"
    by (subst (asm) find_closing_loop.simps) (auto split: sum.splits)
  then have ti: "t = tokens ! nat i" "0 \<le> i" "i < int (length tokens)"
    by (auto simp: token_at_def split: if_splits)
  from "1.prems"(1) le t have eq:
    "(if type t = T_closing_parenthesis then
        (if depth = 0 then Inr i
         else if 0 < depth then find_closing_loop tokens (i + 1) end_index (depth - 1)
         else Inl (broken_parser_exception ''Broken parser: Missed closing parenthesis''))
      else if type t = T_opening_parenthesis then
        find_closing_loop tokens (i + 1) end_index (depth + 1)
      else find_closing_loop tokens (i + 1) end_index depth) = Inr c"
    by (subst (asm) find_closing_loop.simps) simp
  show ?case
  proof (cases "type t = T_closing_parenthesis")
    case True
    show ?thesis
    proof (cases "depth = 0")
      case d0: True
      with True eq ti show ?thesis by simp
    next
      case False
      with True eq have "0 < depth" "find_closing_loop tokens (i + 1) end_index (depth - 1) = Inr c"
        by (auto split: if_splits)
      with "1.IH"(1)[OF le t True False] "1.prems"(2) show ?thesis by simp
    qed
  next
    case False
    show ?thesis
    proof (cases "type t = T_opening_parenthesis")
      case True
      with False eq have "find_closing_loop tokens (i + 1) end_index (depth + 1) = Inr c" by simp
      with "1.IH"(2)[OF le t False True] "1.prems"(2) show ?thesis by simp
    next
      case no: False
      with False eq have "find_closing_loop tokens (i + 1) end_index depth = Inr c" by simp
      with "1.IH"(3)[OF le t False no] "1.prems"(2) show ?thesis by simp
    qed
  qed
qed

text \<open>How each kind of node spans its tokens.\<close>

lemma range_closed_start:
  assumes "range_closed tokens end_index" "start \<le> end_index + 1"
    "token_at tokens start = Inr t" "type t \<noteq> T_closing_parenthesis"
  shows "start \<le> end_index"
proof (rule ccontr)
  assume "\<not> start \<le> end_index"
  with assms(2) have s: "start = end_index + 1" by simp
  from assms(3) have "start < int (length tokens)" "t = tokens ! nat start"
    by (auto simp: token_at_def split: if_splits)
  with assms(1,4) s show False by (auto simp: range_closed_def)
qed

lemma parsed_span_number:
  assumes "0 \<le> start" "start \<le> end_index" "token_at tokens start = Inr t" "type t = T_number"
  shows "parsed_span tokens start end_index (Number v)"
proof -
  from assms(3) have "start < int (length tokens)" "t = tokens ! nat start"
    by (auto simp: token_at_def split: if_splits)
  then show ?thesis
    using assms token_slice_single[of start tokens] by (simp add: parsed_span_def)
qed

lemma parsed_span_negative:
  assumes "0 \<le> start" "token_at tokens start = Inr t" "type t = T_minus"
    "parsed_span tokens (start + 1) end_index content"
  shows "parsed_span tokens start end_index (Negative content)"
proof -
  from assms(2) have t: "start < int (length tokens)" "t = tokens ! nat start"
    by (auto simp: token_at_def split: if_splits)
  have pos: "0 < consumed_tokens content" by (rule consumed_tokens_pos)
  have "token_slice tokens start (start + consumed_tokens content) =
        tokens ! nat start # token_slice tokens (start + 1) (start + consumed_tokens content)"
    using assms(1) t pos by (intro token_slice_step) simp_all
  moreover have "start + 1 + consumed_tokens content - 1 = start + consumed_tokens content" by simp
  ultimately show ?thesis
    using assms(3,4) t by (simp add: parsed_span_def)
qed

lemma parsed_span_parentheses:
  assumes "0 \<le> start" "token_at tokens start = Inr t" "type t = T_opening_parenthesis"
    "parsed_span tokens (start + 1) (c - 1) content" "start + 1 + consumed_tokens content = c"
    "c \<le> end_index" "c < int (length tokens)" "type (tokens ! nat c) = T_closing_parenthesis"
  shows "parsed_span tokens start end_index (Parentheses content)"
proof -
  from assms(2) have t: "start < int (length tokens)" "t = tokens ! nat start"
    by (auto simp: token_at_def split: if_splits)
  have pos: "0 < consumed_tokens content" by (rule consumed_tokens_pos)
  have c: "start + 1 < c" using assms(5) pos by simp
  have "token_slice tokens start c = tokens ! nat start # token_slice tokens (start + 1) c"
    using assms(1) t c by (intro token_slice_step) simp_all
  also have "token_slice tokens (start + 1) c =
             token_slice tokens (start + 1) (c - 1) @ token_slice tokens (c - 1 + 1) c"
    using assms(1) c by (intro token_slice_append) simp_all
  also have "token_slice tokens (c - 1 + 1) c = [tokens ! nat c]"
    using token_slice_single[of c tokens] assms(1,7) c by simp
  finally have "token_slice tokens start c =
     tokens ! nat start # token_slice tokens (start + 1) (c - 1) @ [tokens ! nat c]" .
  moreover have "start + (consumed_tokens content + 2) - 1 = c" using assms(5) by simp
  moreover have "start + 1 + consumed_tokens content - 1 = c - 1" using assms(5) by simp
  ultimately show ?thesis
    using assms(3,4,6,8) t by (simp add: parsed_span_def)
qed

lemma parsed_span_create:
  assumes "0 \<le> start" "parsed_span tokens start end_index left"
    "token_at tokens (start + consumed_tokens left) = Inr t" "parse_operator t = Inr op"
    "parsed_span tokens (start + (consumed_tokens left + 1)) end_index right"
  shows "parsed_span tokens start end_index (create_two_operand_expression left op right)"
proof -
  let ?l = "consumed_tokens left" and ?r = "consumed_tokens right"
  from assms(3) have t: "start + ?l < int (length tokens)" "t = tokens ! nat (start + ?l)"
    by (auto simp: token_at_def split: if_splits)
  have pl: "0 < ?l" and pr: "0 < ?r" by (rule consumed_tokens_pos)+
  have "token_slice tokens start (start + ?l + ?r) =
        token_slice tokens start (start + ?l - 1) @ token_slice tokens (start + ?l - 1 + 1) (start + ?l + ?r)"
    using assms(1) pl pr by (intro token_slice_append) simp_all
  also have "token_slice tokens (start + ?l - 1 + 1) (start + ?l + ?r) =
        tokens ! nat (start + ?l) # token_slice tokens (start + ?l + 1) (start + ?l + ?r)"
    using token_slice_step[of "start + ?l" "start + ?l + ?r" tokens] assms(1) pl pr t by simp
  finally have split: "token_slice tokens start (start + ?l + ?r) =
        token_slice tokens start (start + ?l - 1)
        @ tokens ! nat (start + ?l) # token_slice tokens (start + ?l + 1) (start + ?l + ?r)" .
  have i1: "start + (?l + ?r + 1) - 1 = start + ?l + ?r" by simp
  have i2: "start + (?l + 1) + ?r - 1 = start + ?l + ?r" by simp
  have i3: "start + (?l + 1) = start + ?l + 1" by simp
  have i4: "start + ?l + 1 + ?r - 1 = start + ?l + ?r" by simp
  from assms(2) have
    l: "map type (token_slice tokens start (start + ?l - 1)) = expression_tokens left"
    by (simp add: parsed_span_def)
  from assms(5) have
    r: "map type (token_slice tokens (start + ?l + 1) (start + ?l + ?r)) = expression_tokens right"
    unfolding parsed_span_def i3 i4 by (rule conjunct2)
  from assms(5) have bound: "start + (?l + ?r + 1) \<le> end_index + 1"
    unfolding parsed_span_def by simp
  have "map type (token_slice tokens start (start + ?l + ?r)) =
        expression_tokens left @ [type t] @ expression_tokens right"
    unfolding split using l r t by simp
  then show ?thesis
    unfolding parsed_span_def consumed_create i1 operator_token[OF assms(4)]
    using bound by simp
qed

text \<open>
  By induction along the calls of the four functions: what is returned for a range spans
  tokens of the range, and at the lowest priority all of them.
\<close>

lemma parse_range_span:
  "0 \<le> start \<and> start \<le> end_index + 1 \<and> range_closed tokens end_index \<longrightarrow>
     (\<forall>r. parse_range tokens start end_index parent_priority = Inr r \<longrightarrow>
        parsed_span tokens start end_index r
        \<and> (parent_priority = P_lowest \<longrightarrow> start + consumed_tokens r = end_index + 1))"
  and parse_range_loop_span:
    "0 \<le> start \<and> range_closed tokens end_index \<and> parsed_span tokens start end_index result \<longrightarrow>
     (\<forall>r. parse_range_loop tokens start end_index parent_priority result = Inr r \<longrightarrow>
        parsed_span tokens start end_index r
        \<and> (parent_priority = P_lowest \<longrightarrow> start + consumed_tokens r = end_index + 1))"
  and parse_operand_span:
    "0 \<le> start \<and> start \<le> end_index + 1 \<and> range_closed tokens end_index \<longrightarrow>
     (\<forall>r. parse_operand tokens start end_index = Inr r \<longrightarrow> parsed_span tokens start end_index r)"
  and parse_parentheses_span:
    "0 \<le> start \<and> start \<le> end_index \<and> range_closed tokens end_index
       \<and> (\<exists>t. token_at tokens start = Inr t \<and> type t = T_opening_parenthesis) \<longrightarrow>
     (\<forall>r. parse_parentheses tokens start end_index = Inr r \<longrightarrow> parsed_span tokens start end_index r)"
proof (induct tokens start end_index parent_priority
    and tokens start end_index parent_priority result
    and tokens start end_index
    and tokens start end_index
    rule: parse_range_parse_range_loop_parse_operand_parse_parentheses.induct)
  case (1 tokens start end_index parent_priority)
  show ?case
  proof (intro impI allI)
    fix r
    assume h: "0 \<le> start \<and> start \<le> end_index + 1 \<and> range_closed tokens end_index"
      and p: "parse_range tokens start end_index parent_priority = Inr r"
    from p obtain result where operand: "parse_operand tokens start end_index = Inr result"
      and loop: "parse_range_loop tokens start end_index parent_priority result = Inr r"
      by (subst (asm) parse_range.simps) (auto split: sum.splits)
    from "1"(1) h operand have "parsed_span tokens start end_index result" by blast
    with "1"(2)[OF operand] h loop
    show "parsed_span tokens start end_index r
        \<and> (parent_priority = P_lowest \<longrightarrow> start + consumed_tokens r = end_index + 1)"
      by blast
  qed
next
  case (2 tokens start end_index parent_priority result)
  show ?case
  proof (intro impI allI)
    fix r
    assume h: "0 \<le> start \<and> range_closed tokens end_index \<and> parsed_span tokens start end_index result"
      and p: "parse_range_loop tokens start end_index parent_priority result = Inr r"
    show "parsed_span tokens start end_index r
        \<and> (parent_priority = P_lowest \<longrightarrow> start + consumed_tokens r = end_index + 1)"
    proof (cases "consumed_tokens result < end_index - start + 1")
      case False
      with p have "r = result" by (subst (asm) parse_range_loop.simps) simp
      with h False show ?thesis by (auto simp: parsed_span_def)
    next
      case True
      with p obtain t where t: "token_at tokens (start + consumed_tokens result) = Inr t"
        by (subst (asm) parse_range_loop.simps) (auto split: sum.splits)
      with p True obtain op where op: "parse_operator t = Inr op"
        by (subst (asm) parse_range_loop.simps) (auto split: sum.splits)
      show ?thesis
      proof (cases "priority_value (get_priority op) \<le> priority_value parent_priority")
        case stop: True
        with p True t op have "r = result" by (subst (asm) parse_range_loop.simps) simp
        moreover have "parent_priority \<noteq> P_lowest" using stop first_priority[of op] by auto
        ultimately show ?thesis using h by simp
      next
        case go: False
        with p True t op obtain next_operand where
          next_operand: "parse_range tokens (start + (consumed_tokens result + 1)) end_index
             (get_priority op) = Inr next_operand"
          and loop: "parse_range_loop tokens start end_index parent_priority
             (create_two_operand_expression result op next_operand) = Inr r"
          by (subst (asm) parse_range_loop.simps) (auto split: sum.splits)
        have "0 \<le> start + (consumed_tokens result + 1)"
          using h consumed_tokens_pos[of result] by simp
        moreover have "start + (consumed_tokens result + 1) \<le> end_index + 1" using True by simp
        ultimately have "parsed_span tokens (start + (consumed_tokens result + 1)) end_index next_operand"
          using "2"(1)[OF True t op go] h next_operand by blast
        then have "parsed_span tokens start end_index (create_two_operand_expression result op next_operand)"
          using h t op by (intro parsed_span_create[where t = t]) simp_all
        with "2"(2)[OF True t op go next_operand] h loop show ?thesis by blast
      qed
    qed
  qed
next
  case (3 tokens start end_index)
  show ?case
  proof (intro impI allI)
    fix r
    assume h: "0 \<le> start \<and> start \<le> end_index + 1 \<and> range_closed tokens end_index"
      and p: "parse_operand tokens start end_index = Inr r"
    from p obtain t where t: "token_at tokens start = Inr t"
      by (subst (asm) parse_operand.simps) (auto split: sum.splits)
    show "parsed_span tokens start end_index r"
    proof (cases "type t")
      case T_number
      with p t have r: "r = Number (stored_value t)"
        by (subst (asm) parse_operand.simps) (simp add: token_value_def)
      have "start \<le> end_index" using range_closed_start[of tokens end_index start t] h t T_number by simp
      then show ?thesis unfolding r using h t T_number by (intro parsed_span_number[where t = t]) simp_all
    next
      case T_opening_parenthesis
      with p t have pp: "parse_parentheses tokens start end_index = Inr r"
        by (subst (asm) parse_operand.simps) simp
      have "start \<le> end_index"
        using range_closed_start[of tokens end_index start t] h t T_opening_parenthesis by simp
      with "3"(1)[OF t T_opening_parenthesis] h t T_opening_parenthesis pp show ?thesis by blast
    next
      case T_closing_parenthesis
      with p t show ?thesis by (subst (asm) parse_operand.simps) simp
    next
      case T_multiply
      with p t show ?thesis by (subst (asm) parse_operand.simps) simp
    next
      case T_divide
      with p t show ?thesis by (subst (asm) parse_operand.simps) simp
    next
      case T_plus
      with p t show ?thesis by (subst (asm) parse_operand.simps) simp
    next
      case T_minus
      with p t have ne: "start \<noteq> end_index"
        by (subst (asm) parse_operand.simps) (auto split: if_splits)
      with p t T_minus obtain content where
        content: "parse_operand tokens (start + 1) end_index = Inr content"
        and r: "r = Negative content"
        by (subst (asm) parse_operand.simps) (auto split: sum.splits)
      have "start \<le> end_index" using range_closed_start[of tokens end_index start t] h t T_minus by simp
      with ne have "start + 1 \<le> end_index + 1" by simp
      with "3"(2)[OF t T_minus ne] h content
      have "parsed_span tokens (start + 1) end_index content" by simp
      then show ?thesis unfolding r using h t T_minus by (intro parsed_span_negative[where t = t]) simp_all
    qed
  qed
next
  case (4 tokens start end_index)
  show ?case
  proof (intro impI allI)
    fix r
    assume h: "0 \<le> start \<and> start \<le> end_index \<and> range_closed tokens end_index
       \<and> (\<exists>t. token_at tokens start = Inr t \<and> type t = T_opening_parenthesis)"
      and p: "parse_parentheses tokens start end_index = Inr r"
    from h obtain t where t: "token_at tokens start = Inr t" "type t = T_opening_parenthesis"
      by blast
    from p obtain c where c: "find_closing_parenthesis tokens (start + 1) end_index = Inr c"
      by (subst (asm) parse_parentheses.simps) (auto split: sum.splits)
    with p t have c1: "c \<noteq> - 1" and c2: "c \<noteq> start + 1"
      by (subst (asm) parse_parentheses.simps, auto split: if_splits)+
    with p c obtain content where
      content: "parse_range tokens (start + 1) (c - 1) P_lowest = Inr content"
      and r: "r = Parentheses content"
      by (subst (asm) parse_parentheses.simps) (auto split: sum.splits)
    from c c1 have range: "start + 1 \<le> c" "c \<le> end_index"
      using find_closing_loop_range[of tokens "start + 1" end_index 0 c]
      by (simp_all add: find_closing_parenthesis_def)
    from c c1 have closing: "c < int (length tokens)" "type (tokens ! nat c) = T_closing_parenthesis"
      using find_closing_loop_type[of tokens "start + 1" end_index 0 c]
      by (simp_all add: find_closing_parenthesis_def)
    have "range_closed tokens (c - 1)" using closing by (simp add: range_closed_def)
    with "4"[OF c c1 c2] h range content
    have span: "parsed_span tokens (start + 1) (c - 1) content"
      and full: "start + 1 + consumed_tokens content = c - 1 + 1"
      by simp_all
    show "parsed_span tokens start end_index r"
      unfolding r using h t span full range closing
      by (intro parsed_span_parentheses[where t = t and c = c]) simp_all
  qed
qed

text \<open>
  C5. \<open>consumed_tokens\<close> is 1 for a number, one more than the operand's for a negation,
  the sum of both operands' plus one for each of the four binary nodes, and two more than
  the content's for a parenthesized expression; so it is the number of tokens the
  expression is written with. And that is what the parser consumed: an expression that
  \<open>parse_range\<close> or \<open>parse_operand\<close> returns for a range from \<open>start\<close> counts no more
  tokens than the range has, and the tokens from \<open>start\<close> that it counts are the tokens
  it is written with; the expression that \<open>parse\<close> returns is written with all the
  tokens of the formula.
\<close>

theorem consumed_tokens_exact:
  "(\<forall>v. consumed_tokens (Number v) = 1)
   \<and> (\<forall>content. consumed_tokens (Negative content) = consumed_tokens content + 1)
   \<and> (\<forall>left right.
         consumed_tokens (Add left right) = consumed_tokens left + consumed_tokens right + 1
         \<and> consumed_tokens (Subtract left right) = consumed_tokens left + consumed_tokens right + 1
         \<and> consumed_tokens (Multiply left right) = consumed_tokens left + consumed_tokens right + 1
         \<and> consumed_tokens (Divide left right) = consumed_tokens left + consumed_tokens right + 1)
   \<and> (\<forall>content. consumed_tokens (Parentheses content) = consumed_tokens content + 2)
   \<and> (\<forall>e. consumed_tokens e = int (length (expression_tokens e)))
   \<and> (\<forall>tokens start end_index parent_priority e.
         0 \<le> start \<and> start \<le> end_index + 1 \<and> range_closed tokens end_index
         \<and> parse_range tokens start end_index parent_priority = Inr e \<longrightarrow>
         start + consumed_tokens e \<le> end_index + 1
         \<and> map type (token_slice tokens start (start + consumed_tokens e - 1)) = expression_tokens e)
   \<and> (\<forall>tokens start end_index e.
         0 \<le> start \<and> start \<le> end_index + 1 \<and> range_closed tokens end_index
         \<and> parse_operand tokens start end_index = Inr e \<longrightarrow>
         start + consumed_tokens e \<le> end_index + 1
         \<and> map type (token_slice tokens start (start + consumed_tokens e - 1)) = expression_tokens e)
   \<and> (\<forall>formula tokens e.
         tokenize formula = Inr tokens \<and> parse formula = Inr e \<longrightarrow>
         expression_tokens e = map type tokens \<and> consumed_tokens e = int (length tokens))"
proof (intro conjI allI impI)
  fix e
  show "consumed_tokens e = int (length (expression_tokens e))" by (rule consumed_tokens_length)
next
  fix tokens start end_index parent_priority e
  assume "0 \<le> start \<and> start \<le> end_index + 1 \<and> range_closed tokens end_index
         \<and> parse_range tokens start end_index parent_priority = Inr e"
  with parse_range_span[of start end_index tokens parent_priority]
  have s: "parsed_span tokens start end_index e" by blast
  from s show "start + consumed_tokens e \<le> end_index + 1" by (simp add: parsed_span_def)
  from s show "map type (token_slice tokens start (start + consumed_tokens e - 1)) = expression_tokens e"
    by (simp add: parsed_span_def)
next
  fix tokens start end_index e
  assume "0 \<le> start \<and> start \<le> end_index + 1 \<and> range_closed tokens end_index
         \<and> parse_operand tokens start end_index = Inr e"
  with parse_operand_span[of start end_index tokens]
  have s: "parsed_span tokens start end_index e" by blast
  from s show "start + consumed_tokens e \<le> end_index + 1" by (simp add: parsed_span_def)
  from s show "map type (token_slice tokens start (start + consumed_tokens e - 1)) = expression_tokens e"
    by (simp add: parsed_span_def)
next
  fix formula tokens e
  assume h: "tokenize formula = Inr tokens \<and> parse formula = Inr e"
  then have ne: "tokens \<noteq> []" and p: "parse_range tokens 0 (int (length tokens) - 1) P_lowest = Inr e"
    by (auto simp: parse_def split: if_splits)
  have "range_closed tokens (int (length tokens) - 1)" by (simp add: range_closed_def)
  with parse_range_span[of 0 "int (length tokens) - 1" tokens P_lowest] p
  have s: "parsed_span tokens 0 (int (length tokens) - 1) e"
    and full: "0 + consumed_tokens e = int (length tokens) - 1 + 1"
    by simp_all
  from full show c: "consumed_tokens e = int (length tokens)" by simp
  from s show "expression_tokens e = map type tokens"
    unfolding parsed_span_def c by (simp add: token_slice_def)
qed simp_all

theorem consumed_tokens_exact_witness:
  "parse ''-(2+3)*4'' =
     Inr (Multiply (Negative (Parentheses (Add (Number (Finite False 2)) (Number (Finite False 3)))))
            (Number (Finite False 4)))
   \<and> consumed_tokens
       (Multiply (Negative (Parentheses (Add (Number (Finite False 2)) (Number (Finite False 3)))))
          (Number (Finite False 4))) = 8
   \<and> expression_tokens
       (Multiply (Negative (Parentheses (Add (Number (Finite False 2)) (Number (Finite False 3)))))
          (Number (Finite False 4))) =
     [T_minus, T_opening_parenthesis, T_number, T_plus, T_number, T_closing_parenthesis,
      T_multiply, T_number]"
proof -
  let ?e = "Multiply (Negative (Parentheses (Add (Number (Finite False 2)) (Number (Finite False 3)))))
            (Number (Finite False 4))"
  let ?ts = "[make_token T_minus 0, make_token T_opening_parenthesis 1,
              number_token 2 (Finite False 2), make_token T_plus 3,
              number_token 4 (Finite False 3), make_token T_closing_parenthesis 5,
              make_token T_multiply 6, number_token 7 (Finite False 4)]"
  have t: "tokenize ''-(2+3)*4'' = Inr ?ts" by (simp add: run_defs)
  have p: "parse ''-(2+3)*4'' = Inr ?e" by (simp add: run_defs)
  from consumed_tokens_exact have
    "tokenize ''-(2+3)*4'' = Inr ?ts \<and> parse ''-(2+3)*4'' = Inr ?e \<longrightarrow>
       expression_tokens ?e = map type ?ts \<and> consumed_tokens ?e = int (length ?ts)"
    by blast
  with t p show ?thesis by (simp add: make_token_def number_token_def)
qed

section \<open>Precedence and associativity\<close>

text \<open>
  The tokens of literals joined by binary operators: a number, then operators each
  followed by a number. The functions read the operators and the values off the tokens.
\<close>

fun joined_operands :: "token list \<Rightarrow> (operator \<times> double) list option" where
  "joined_operands [] = Some []"
| "joined_operands [t] = None"
| "joined_operands (t # u # ts) =
     (case parse_operator t of
        Inl e \<Rightarrow> None
      | Inr op \<Rightarrow>
          if type u = T_number then map_option ((#) (op, stored_value u)) (joined_operands ts)
          else None)"

fun joined_literals :: "token list \<Rightarrow> (double \<times> (operator \<times> double) list) option" where
  "joined_literals [] = None"
| "joined_literals (t # ts) =
     (if type t = T_number then map_option (Pair (stored_value t)) (joined_operands ts) else None)"

text \<open>
  The usual reading of such a sequence. A term is a number with the factors that follow
  it, multiplied and divided from left to right; the expression is the first term with
  the further terms added and subtracted from left to right.
\<close>

definition multiplicative :: "operator \<times> double \<Rightarrow> bool" where
  "multiplicative p = (fst p = O_multiply \<or> fst p = O_divide)"

definition product_tree :: "expression \<Rightarrow> (operator \<times> double) list \<Rightarrow> expression" where
  "product_tree left factors =
     foldl (\<lambda>l (op, v). create_two_operand_expression l op (Number v)) left factors"

function sum_tree :: "expression \<Rightarrow> (operator \<times> double) list \<Rightarrow> expression" where
  "sum_tree left [] = left"
| "sum_tree left ((op, v) # rest) =
     sum_tree
       (create_two_operand_expression left op
          (product_tree (Number v) (takeWhile multiplicative rest)))
       (dropWhile multiplicative rest)"
  by pat_completeness auto
termination
  by (relation "measure (\<lambda>(left, ops). length ops)")
    (auto simp: less_Suc_eq_le length_dropWhile_le)

definition precedence_tree :: "double \<Rightarrow> (operator \<times> double) list \<Rightarrow> expression" where
  "precedence_tree v ops =
     sum_tree (product_tree (Number v) (takeWhile multiplicative ops))
       (dropWhile multiplicative ops)"

lemma product_tree_Nil [simp]: "product_tree left [] = left"
  by (simp add: product_tree_def)

lemma product_tree_Cons [simp]:
  "product_tree left ((op, v) # factors) =
   product_tree (create_two_operand_expression left op (Number v)) factors"
  by (simp add: product_tree_def)

lemma consumed_product_tree:
  "consumed_tokens (product_tree left factors) = consumed_tokens left + 2 * int (length factors)"
  by (induction factors arbitrary: left) (auto simp: consumed_create)

lemma joined_operands_Nil: "joined_operands ts = Some [] \<Longrightarrow> ts = []"
  by (induction ts rule: joined_operands.induct) (auto split: sum.splits if_splits)

lemma joined_operands_Cons:
  assumes "joined_operands ts = Some ((op, v) # ops)"
  obtains t u ts' where "ts = t # u # ts'" "parse_operator t = Inr op" "type u = T_number"
    "stored_value u = v" "joined_operands ts' = Some ops"
  using assms
  by (induction ts rule: joined_operands.induct) (auto split: sum.splits if_splits)

lemma joined_operands_drop:
  "joined_operands ts = Some ops \<Longrightarrow> joined_operands (drop (2 * n) ts) = Some (drop n ops)"
proof (induction n arbitrary: ts ops)
  case 0
  then show ?case by simp
next
  case (Suc n)
  show ?case
  proof (cases ops)
    case Nil
    with Suc.prems have "ts = []" by (simp add: joined_operands_Nil)
    with Nil show ?thesis by simp
  next
    case (Cons p ops')
    obtain op v where p: "p = (op, v)" by (cases p)
    from Suc.prems Cons p obtain t u ts' where ts: "ts = t # u # ts'" "joined_operands ts' = Some ops'"
      by (auto elim: joined_operands_Cons)
    from Suc.IH[OF ts(2)] show ?thesis by (simp add: ts Cons)
  qed
qed

lemma token_at_drop:
  assumes "drop k tokens = t # rest"
  shows "token_at tokens (int k) = Inr t" and "k < length tokens" and "drop (Suc k) tokens = rest"
proof -
  show k: "k < length tokens" using assms by (cases "k < length tokens") auto
  from Cons_nth_drop_Suc[OF k] assms show "drop (Suc k) tokens = rest" by simp
  from Cons_nth_drop_Suc[OF k] assms have "tokens ! k = t" by simp
  with k show "token_at tokens (int k) = Inr t" by (simp add: token_at_def)
qed

lemma priority_cases:
  "multiplicative (op, v) \<Longrightarrow> get_priority op = P_second"
  "\<not> multiplicative (op, v) \<Longrightarrow> get_priority op = P_first"
  by (cases op; simp add: multiplicative_def)+

text \<open>A literal is an operand; at the priority of \<open>*\<close> and \<open>/\<close> nothing is added to it.\<close>

lemma parse_operand_literal:
  assumes "drop k tokens = t # rest" "type t = T_number"
  shows "parse_operand tokens (int k) end_index = Inr (Number (stored_value t))"
  using token_at_drop(1)[OF assms(1)] assms(2)
  by (subst parse_operand.simps) (simp add: token_value_def)

lemma parse_range_second:
  assumes "drop k tokens = t # rest" "type t = T_number" "joined_operands rest = Some ops"
  shows "parse_range tokens (int k) (int (length tokens) - 1) P_second = Inr (Number (stored_value t))"
proof -
  let ?e = "int (length tokens) - 1"
  have operand: "parse_operand tokens (int k) ?e = Inr (Number (stored_value t))"
    using assms(1,2) by (rule parse_operand_literal)
  have "parse_range_loop tokens (int k) ?e P_second (Number (stored_value t)) =
        Inr (Number (stored_value t))"
  proof (cases ops)
    case Nil
    with assms(3) have "rest = []" by (simp add: joined_operands_Nil)
    with assms(1) have "length tokens = Suc k"
      using token_at_drop(2,3)[OF assms(1)] by simp
    then show ?thesis by (subst parse_range_loop.simps) simp
  next
    case (Cons p ops')
    obtain op v where p: "p = (op, v)" by (cases p)
    from assms(3) Cons p obtain o' u ts' where rest: "rest = o' # u # ts'" "parse_operator o' = Inr op"
      by (auto elim: joined_operands_Cons)
    have d: "drop (Suc k) tokens = o' # u # ts'"
      using token_at_drop(3)[OF assms(1)] rest by simp
    from token_at_drop[OF d] have t1: "token_at tokens (int k + 1) = Inr o'" and "Suc k < length tokens"
      by (simp_all add: add.commute)
    moreover have "priority_value (get_priority op) \<le> priority_value P_second"
      by (cases op) simp_all
    ultimately show ?thesis using rest(2)
      by (subst parse_range_loop.simps) simp
  qed
  with operand show ?thesis by (subst parse_range.simps) simp
qed

lemma takeWhile_dropWhile: "takeWhile P (dropWhile P xs) = []"
  by (induction xs) simp_all

text \<open>At the priority of \<open>+\<close> and \<open>-\<close> the loop takes the factors that follow, and stops.\<close>

lemma parse_range_loop_first:
  assumes "consumed_tokens result = int c" "joined_operands (drop (k + c) tokens) = Some ops"
  shows "parse_range_loop tokens (int k) (int (length tokens) - 1) P_first result =
         Inr (product_tree result (takeWhile multiplicative ops))"
  using assms
proof (induction ops arbitrary: result c)
  case Nil
  from Nil.prems(2) have "drop (k + c) tokens = []" by (rule joined_operands_Nil)
  then have "length tokens \<le> k + c" by simp
  with Nil.prems(1) show ?case by (subst parse_range_loop.simps) simp
next
  case (Cons p ops)
  obtain op v where p: "p = (op, v)" by (cases p)
  from Cons.prems(2) p obtain t u ts where
    d: "drop (k + c) tokens = t # u # ts" and op: "parse_operator t = Inr op"
    and u: "type u = T_number" "stored_value u = v" and ts: "joined_operands ts = Some ops"
    by (auto elim: joined_operands_Cons)
  from token_at_drop[OF d] have t: "token_at tokens (int k + int c) = Inr t"
    and lt: "k + c < length tokens" and d1: "drop (Suc (k + c)) tokens = u # ts"
    by simp_all
  from lt Cons.prems(1) have more: "consumed_tokens result < int (length tokens) - 1 - int k + 1"
    by simp
  show ?case
  proof (cases "multiplicative (op, v)")
    case False
    then have "priority_value (get_priority op) \<le> priority_value P_first"
      by (simp add: priority_cases)
    with more t op Cons.prems(1) False p show ?thesis
      by (subst parse_range_loop.simps) simp
  next
    case True
    then have go: "\<not> priority_value (get_priority op) \<le> priority_value P_first"
      and pr: "get_priority op = P_second"
      by (simp_all add: priority_cases)
    have idx: "int k + (consumed_tokens result + 1) = int (Suc (k + c))"
      using Cons.prems(1) by simp
    have next_operand: "parse_range tokens (int k + (consumed_tokens result + 1))
        (int (length tokens) - 1) (get_priority op) = Inr (Number v)"
      unfolding idx pr using parse_range_second[OF d1 u(1) ts] u(2) by simp
    let ?r = "create_two_operand_expression result op (Number v)"
    have c': "consumed_tokens ?r = int (c + 2)"
      using Cons.prems(1) by (simp add: consumed_create)
    have "drop (k + (c + 2)) tokens = ts"
      using token_at_drop(3)[OF d1] by (simp add: add.assoc)
    with ts have "joined_operands (drop (k + (c + 2)) tokens) = Some ops" by simp
    from Cons.IH[OF c' this]
    have "parse_range_loop tokens (int k) (int (length tokens) - 1) P_first ?r =
          Inr (product_tree ?r (takeWhile multiplicative ops))" .
    with more t op go next_operand Cons.prems(1) True p show ?thesis
      by (subst parse_range_loop.simps) simp
  qed
qed

lemma parse_range_first:
  assumes "drop k tokens = t # rest" "type t = T_number" "joined_operands rest = Some ops"
  shows "parse_range tokens (int k) (int (length tokens) - 1) P_first =
         Inr (product_tree (Number (stored_value t)) (takeWhile multiplicative ops))"
proof -
  have "joined_operands (drop (k + 1) tokens) = Some ops"
    using token_at_drop(3)[OF assms(1)] assms(3) by simp
  from parse_range_loop_first[of "Number (stored_value t)" 1 k tokens ops, OF _ this]
  show ?thesis
    using parse_operand_literal[OF assms(1,2)] by (subst parse_range.simps) simp
qed

text \<open>
  At the lowest priority the loop goes through all the operators: a factor is put under
  the result at once, and \<open>+\<close> or \<open>-\<close> takes the whole term that follows.
\<close>

lemma parse_range_loop_lowest:
  assumes "consumed_tokens result = int c" "joined_operands (drop (k + c) tokens) = Some ops"
  shows "parse_range_loop tokens (int k) (int (length tokens) - 1) P_lowest result =
         Inr (sum_tree (product_tree result (takeWhile multiplicative ops))
                (dropWhile multiplicative ops))"
  using assms
proof (induction ops arbitrary: result c rule: length_induct)
  case (1 ops)
  show ?case
  proof (cases ops)
    case Nil
    from "1.prems"(2) have "drop (k + c) tokens = []"
      unfolding Nil by (rule joined_operands_Nil)
    then have "length tokens \<le> k + c" by simp
    with "1.prems"(1) Nil show ?thesis by (subst parse_range_loop.simps) simp
  next
    case (Cons p ops')
    obtain op v where p: "p = (op, v)" by (cases p)
    from "1.prems"(2) Cons p obtain t u ts where
      d: "drop (k + c) tokens = t # u # ts" and op: "parse_operator t = Inr op"
      and u: "type u = T_number" "stored_value u = v" and ts: "joined_operands ts = Some ops'"
      by (auto elim: joined_operands_Cons)
    from token_at_drop[OF d] have t: "token_at tokens (int k + int c) = Inr t"
      and lt: "k + c < length tokens" and d1: "drop (Suc (k + c)) tokens = u # ts"
      by simp_all
    from lt "1.prems"(1) have more: "consumed_tokens result < int (length tokens) - 1 - int k + 1"
      by simp
    have go: "\<not> priority_value (get_priority op) \<le> priority_value P_lowest"
      by (cases op) simp_all
    have idx: "int k + (consumed_tokens result + 1) = int (Suc (k + c))"
      using "1.prems"(1) by simp
    show ?thesis
    proof (cases "multiplicative (op, v)")
      case True
      then have pr: "get_priority op = P_second" by (simp add: priority_cases)
      have next_operand: "parse_range tokens (int k + (consumed_tokens result + 1))
          (int (length tokens) - 1) (get_priority op) = Inr (Number v)"
        unfolding idx pr using parse_range_second[OF d1 u(1) ts] u(2) by simp
      let ?r = "create_two_operand_expression result op (Number v)"
      have c': "consumed_tokens ?r = int (c + 2)"
        using "1.prems"(1) by (simp add: consumed_create)
      have "drop (k + (c + 2)) tokens = ts"
        using token_at_drop(3)[OF d1] by (simp add: add.assoc)
      with ts have j: "joined_operands (drop (k + (c + 2)) tokens) = Some ops'" by simp
      have "length ops' < length ops" using Cons by simp
      with "1.IH" c' j
      have "parse_range_loop tokens (int k) (int (length tokens) - 1) P_lowest ?r =
            Inr (sum_tree (product_tree ?r (takeWhile multiplicative ops'))
                   (dropWhile multiplicative ops'))"
        by blast
      with more t op go next_operand "1.prems"(1) True p Cons show ?thesis
        by (subst parse_range_loop.simps) simp
    next
      case False
      then have pr: "get_priority op = P_first" by (simp add: priority_cases)
      let ?factors = "takeWhile multiplicative ops'"
      let ?addend = "product_tree (Number v) ?factors"
      let ?n = "length ?factors"
      have next_operand: "parse_range tokens (int k + (consumed_tokens result + 1))
          (int (length tokens) - 1) (get_priority op) = Inr ?addend"
        unfolding idx pr using parse_range_first[OF d1 u(1) ts] u(2) by simp
      let ?r = "create_two_operand_expression result op ?addend"
      have c': "consumed_tokens ?r = int (c + 2 + 2 * ?n)"
        using "1.prems"(1) by (simp add: consumed_create consumed_product_tree)
      have "drop (k + (c + 2 + 2 * ?n)) tokens = drop (2 * ?n) (drop (Suc (Suc (k + c))) tokens)"
        by (simp add: algebra_simps)
      also have "drop (Suc (Suc (k + c))) tokens = ts"
        using token_at_drop(3)[OF d1] by simp
      finally have "drop (k + (c + 2 + 2 * ?n)) tokens = drop (2 * ?n) ts" .
      moreover have "joined_operands (drop (2 * ?n) ts) = Some (drop ?n ops')"
        using ts by (rule joined_operands_drop)
      moreover have rest: "drop ?n ops' = dropWhile multiplicative ops'"
        by (simp add: dropWhile_eq_drop)
      ultimately have j: "joined_operands (drop (k + (c + 2 + 2 * ?n)) tokens) =
          Some (dropWhile multiplicative ops')"
        by simp
      have "length (dropWhile multiplicative ops') < length ops"
        using Cons length_dropWhile_le[of multiplicative ops'] by simp
      with "1.IH" c' j
      have "parse_range_loop tokens (int k) (int (length tokens) - 1) P_lowest ?r =
            Inr (sum_tree (product_tree ?r (takeWhile multiplicative (dropWhile multiplicative ops')))
                   (dropWhile multiplicative (dropWhile multiplicative ops')))"
        by blast
      moreover have "takeWhile multiplicative (dropWhile multiplicative ops') = []"
        by (rule takeWhile_dropWhile)
      ultimately have "parse_range_loop tokens (int k) (int (length tokens) - 1) P_lowest ?r =
            Inr (sum_tree ?r (dropWhile multiplicative ops'))"
        by (simp add: dropWhile_idem)
      with more t op go next_operand "1.prems"(1) False p Cons show ?thesis
        by (subst parse_range_loop.simps) simp
    qed
  qed
qed

lemma parse_joined_literals:
  assumes "joined_literals tokens = Some (v, ops)"
  shows "parse_range tokens 0 (int (length tokens) - 1) P_lowest = Inr (precedence_tree v ops)"
proof -
  from assms obtain t rest where tokens: "tokens = t # rest" and t: "type t = T_number"
    "stored_value t = v" and rest: "joined_operands rest = Some ops"
    by (cases tokens) (auto split: if_splits)
  have d: "drop 0 tokens = t # rest" by (simp add: tokens)
  have "joined_operands (drop (0 + 1) tokens) = Some ops" using rest by (simp add: tokens)
  from parse_range_loop_lowest[of "Number v" 1 0 tokens ops, OF _ this]
  show ?thesis
    using parse_operand_literal[OF d t(1), of "int (length tokens) - 1"] t(2)
    by (subst parse_range.simps) (simp add: precedence_tree_def)
qed

text \<open>The definitions that the reference tree of given operands unfolds.\<close>

lemmas tree_defs = precedence_tree_def multiplicative_def

text \<open>
  C1. For every formula whose tokens are numeric literals joined by the binary operators,
  \<open>parse\<close> returns the tree of the usual reading, in which \<open>*\<close> and \<open>/\<close> are applied
  before \<open>+\<close> and \<open>-\<close> and operators of the same priority from left to right, and
  \<open>calculate\<close> returns the value of that tree. In particular \<open>2 + 3 * 4\<close> gives 14,
  \<open>2 * 3 + 4\<close> gives 10 and \<open>7 + (((5*2)+5)/(2+3)+1)/2 - 1\<close> gives 8.
\<close>

theorem precedence_and_associativity:
  "(\<forall>formula tokens v ops.
      tokenize formula = Inr tokens \<and> joined_literals tokens = Some (v, ops) \<longrightarrow>
      parse formula = Inr (precedence_tree v ops)
      \<and> calculate formula = Inr (calc (precedence_tree v ops)))
   \<and> (\<forall>a b c.
         precedence_tree a [(O_plus, b), (O_multiply, c)] =
           Add (Number a) (Multiply (Number b) (Number c))
         \<and> precedence_tree a [(O_multiply, b), (O_plus, c)] =
           Add (Multiply (Number a) (Number b)) (Number c)
         \<and> precedence_tree a [(O_minus, b), (O_divide, c)] =
           Subtract (Number a) (Divide (Number b) (Number c))
         \<and> precedence_tree a [(O_minus, b), (O_plus, c)] =
           Add (Subtract (Number a) (Number b)) (Number c)
         \<and> precedence_tree a [(O_divide, b), (O_multiply, c)] =
           Multiply (Divide (Number a) (Number b)) (Number c))
   \<and> calculate ''2 + 3 * 4'' = Inr (Finite False 14)
   \<and> calculate ''2 * 3 + 4'' = Inr (Finite False 10)
   \<and> calculate ''7 + (((5*2)+5)/(2+3)+1)/2 - 1'' = Inr (Finite False 8)"
proof (intro conjI allI impI)
  fix formula tokens v ops
  assume h: "tokenize formula = Inr tokens \<and> joined_literals tokens = Some (v, ops)"
  then have "tokens \<noteq> []" by auto
  with h parse_joined_literals[of tokens v ops]
  show p: "parse formula = Inr (precedence_tree v ops)" by (simp add: parse_def)
  then show "calculate formula = Inr (calc (precedence_tree v ops))" by (simp add: calculate_def)
next
  show "calculate ''2 + 3 * 4'' = Inr (Finite False 14)" by (simp add: run_defs)
next
  show "calculate ''2 * 3 + 4'' = Inr (Finite False 10)" by (simp add: run_defs)
next
  show "calculate ''7 + (((5*2)+5)/(2+3)+1)/2 - 1'' = Inr (Finite False 8)"
    by (simp add: run_defs)
qed (simp_all add: tree_defs)

theorem precedence_and_associativity_witness:
  "parse ''8 - 4 - 2 * 3'' =
     Inr (Subtract (Subtract (Number (Finite False 8)) (Number (Finite False 4)))
            (Multiply (Number (Finite False 2)) (Number (Finite False 3))))
   \<and> calculate ''8 - 4 - 2 * 3'' = Inr (Finite True 2)"
proof -
  let ?ts = "[number_token 0 (Finite False 8), make_token T_minus 2,
              number_token 4 (Finite False 4), make_token T_minus 6,
              number_token 8 (Finite False 2), make_token T_multiply 10,
              number_token 12 (Finite False 3)]"
  let ?ops = "[(O_minus, Finite False 4), (O_minus, Finite False 2), (O_multiply, Finite False 3)]"
  have t: "tokenize ''8 - 4 - 2 * 3'' = Inr ?ts" by (simp add: run_defs)
  have j: "joined_literals ?ts = Some (Finite False 8, ?ops)"
    by (simp add: number_token_def make_token_def parse_operator_def)
  have tree: "precedence_tree (Finite False 8) ?ops =
     Subtract (Subtract (Number (Finite False 8)) (Number (Finite False 4)))
            (Multiply (Number (Finite False 2)) (Number (Finite False 3)))"
    by (simp add: tree_defs)
  from precedence_and_associativity have
    "tokenize ''8 - 4 - 2 * 3'' = Inr ?ts \<and> joined_literals ?ts = Some (Finite False 8, ?ops) \<longrightarrow>
      parse ''8 - 4 - 2 * 3'' = Inr (precedence_tree (Finite False 8) ?ops)
      \<and> calculate ''8 - 4 - 2 * 3'' = Inr (calc (precedence_tree (Finite False 8) ?ops))"
    by blast
  with t j show ?thesis unfolding tree by (simp add: dsub_def signed_def)
qed

section \<open>Evaluation\<close>

text \<open>
  The values of the type \<open>double\<close> among the terms of its model: a finite one has a
  magnitude that rounding keeps.
\<close>

fun is_double :: "double \<Rightarrow> bool" where
  "is_double (Finite s m) = (0 \<le> m \<and> round_double s m = Finite s m)"
| "is_double (Infinity s) = True"
| "is_double NaN = True"

text \<open>The numbers at the leaves of an expression.\<close>

fun numbers :: "expression \<Rightarrow> double list" where
  "numbers (Add left right) = numbers left @ numbers right"
| "numbers (Subtract left right) = numbers left @ numbers right"
| "numbers (Multiply left right) = numbers left @ numbers right"
| "numbers (Divide left right) = numbers left @ numbers right"
| "numbers (Parentheses content) = numbers content"
| "numbers (Number v) = [v]"
| "numbers (Negative content) = numbers content"

lemma round_double_sign: "round_double s x = Finite t y \<Longrightarrow> t = s"
  by (auto simp: round_double_def Let_def split: if_splits)

lemma round_double_other_sign: "round_double s x = Finite s y \<Longrightarrow> round_double t x = Finite t y"
  by (auto simp: round_double_def Let_def split: if_splits)

lemma is_double_round: "0 \<le> x \<Longrightarrow> is_double (round_double s x)"
proof (cases "round_double s x")
  case (Finite t y)
  assume "0 \<le> x"
  from round_double_fixed[OF this Finite] round_double_sign[OF Finite]
  show ?thesis by (simp add: Finite)
qed simp_all

lemma is_double_zero [simp]: "is_double (Finite s 0)"
  by simp

lemma is_double_dneg: "is_double x \<Longrightarrow> is_double (dneg x)"
  by (cases x) (auto intro: round_double_other_sign)

lemma is_double_dadd: "is_double x \<Longrightarrow> is_double y \<Longrightarrow> is_double (dadd x y)"
  by (cases x; cases y) (auto simp: Let_def intro: is_double_round)

lemma is_double_dsub: "is_double x \<Longrightarrow> is_double y \<Longrightarrow> is_double (dsub x y)"
  by (simp add: dsub_def is_double_dadd is_double_dneg)

lemma is_double_dmul: "is_double x \<Longrightarrow> is_double y \<Longrightarrow> is_double (dmul x y)"
  by (cases x; cases y) (auto intro: is_double_round)

lemma is_double_ddiv: "is_double x \<Longrightarrow> is_double y \<Longrightarrow> is_double (ddiv x y)"
  by (cases x; cases y) (auto intro: is_double_round)

lemma minus_one_times: "is_double x \<Longrightarrow> dmul (Finite True 1) x = dneg x"
  by (cases x) (auto intro: round_double_other_sign)

lemma is_double_calc: "\<forall>v \<in> set (numbers e). is_double v \<Longrightarrow> is_double (calc e)"
proof (induction e)
  case (Negative e)
  then have "is_double (calc e)" by simp
  then show ?case by (simp add: minus_one_times is_double_dneg)
qed (simp_all add: is_double_dadd is_double_dsub is_double_dmul is_double_ddiv)

lemma division_by_zero:
  "is_zero y \<Longrightarrow> is_infinite (ddiv x y) \<or> ddiv x y = NaN"
  by (cases x; cases y) auto

text \<open>The tokenizer stores doubles in the tokens.\<close>

lemma is_double_strtod: "is_double (fst (strtod s))"
  by (auto simp: strtod_def Let_def intro: is_double_round)

lemma is_double_parse_number: "parse_number s p = Inr v \<Longrightarrow> is_double v"
  using is_double_strtod[of s] by (auto simp: parse_number_def split: prod.splits if_splits)

lemma is_double_symbol_token:
  "symbol_token c i tokens = Inr ts \<Longrightarrow> \<forall>t \<in> set tokens. is_double (stored_value t) \<Longrightarrow>
   \<forall>t \<in> set ts. is_double (stored_value t)"
  by (auto simp: symbol_token_def make_token_def split: if_splits)

lemma is_double_tokenize_loop:
  "tokenize_loop cs i buf ns tokens = Inr ts \<Longrightarrow> \<forall>t \<in> set tokens. is_double (stored_value t) \<Longrightarrow>
   \<forall>t \<in> set ts. is_double (stored_value t)"
proof (induction cs i buf ns tokens rule: tokenize_loop.induct)
  case (1 i buf ns tokens)
  then show ?case by simp
next
  case (2 symbol rest i buf ns tokens)
  show ?case
  proof (cases "numeric_symbol symbol")
    case True
    let ?ns = "if buf = [] then i else ns"
    show ?thesis
    proof (cases "rest = []")
      case last: True
      with "2.prems"(1) True obtain v where v: "parse_number (buf @ [symbol]) ?ns = Inr v"
        and ts: "ts = tokens @ [number_token ?ns v]"
        by (auto simp: Let_def split: sum.splits)
      from is_double_parse_number[OF v] "2.prems"(2) show ?thesis
        by (auto simp: ts number_token_def)
    next
      case False
      with "2.prems"(1) True have "tokenize_loop rest (i + 1) (buf @ [symbol]) ?ns tokens = Inr ts"
        by (simp add: Let_def)
      from "2.IH"(2)[OF True refl refl False this "2.prems"(2)] show ?thesis .
    qed
  next
    case False
    show ?thesis
    proof (cases "buf = []")
      case True
      with "2.prems"(1) False obtain tokens' where s: "symbol_token symbol i tokens = Inr tokens'"
        and l: "tokenize_loop rest (i + 1) buf ns tokens' = Inr ts"
        by (auto split: sum.splits)
      from is_double_symbol_token[OF s "2.prems"(2)]
      have "\<forall>t \<in> set tokens'. is_double (stored_value t)" .
      from "2.IH"(4)[OF False _ s l this] True show ?thesis by simp
    next
      case nonempty: False
      with "2.prems"(1) False obtain v tokens' where v: "parse_number buf ns = Inr v"
        and s: "symbol_token symbol i (tokens @ [number_token ns v]) = Inr tokens'"
        and l: "tokenize_loop rest (i + 1) [] ns tokens' = Inr ts"
        by (auto split: sum.splits)
      have "\<forall>t \<in> set (tokens @ [number_token ns v]). is_double (stored_value t)"
        using is_double_parse_number[OF v] "2.prems"(2) by (auto simp: number_token_def)
      from is_double_symbol_token[OF s this]
      have "\<forall>t \<in> set tokens'. is_double (stored_value t)" .
      from "2.IH"(3)[OF False nonempty v s l this] show ?thesis .
    qed
  qed
qed

text \<open>The numbers of a parsed expression are values stored in the tokens.\<close>

lemma numbers_create:
  "numbers (create_two_operand_expression l op r) = numbers l @ numbers r"
  by (cases op) simp_all

lemma token_at_member: "token_at tokens i = Inr t \<Longrightarrow> t \<in> set tokens"
  by (auto simp: token_at_def split: if_splits)

lemma parse_range_numbers:
  "\<forall>r. parse_range tokens start end_index parent_priority = Inr r \<longrightarrow>
     set (numbers r) \<subseteq> stored_value ` set tokens"
  and parse_range_loop_numbers:
    "set (numbers result) \<subseteq> stored_value ` set tokens \<longrightarrow>
     (\<forall>r. parse_range_loop tokens start end_index parent_priority result = Inr r \<longrightarrow>
        set (numbers r) \<subseteq> stored_value ` set tokens)"
  and parse_operand_numbers:
    "\<forall>r. parse_operand tokens start end_index = Inr r \<longrightarrow>
     set (numbers r) \<subseteq> stored_value ` set tokens"
  and parse_parentheses_numbers:
    "\<forall>r. parse_parentheses tokens start end_index = Inr r \<longrightarrow>
     set (numbers r) \<subseteq> stored_value ` set tokens"
proof (induct tokens start end_index parent_priority
    and tokens start end_index parent_priority result
    and tokens start end_index
    and tokens start end_index
    rule: parse_range_parse_range_loop_parse_operand_parse_parentheses.induct)
  case (1 tokens start end_index parent_priority)
  show ?case
  proof (intro allI impI)
    fix r
    assume "parse_range tokens start end_index parent_priority = Inr r"
    then obtain result where operand: "parse_operand tokens start end_index = Inr result"
      and loop: "parse_range_loop tokens start end_index parent_priority result = Inr r"
      by (subst (asm) parse_range.simps) (auto split: sum.splits)
    from "1"(1) operand have "set (numbers result) \<subseteq> stored_value ` set tokens" by blast
    with "1"(2)[OF operand] loop show "set (numbers r) \<subseteq> stored_value ` set tokens" by blast
  qed
next
  case (2 tokens start end_index parent_priority result)
  show ?case
  proof (intro allI impI)
    fix r
    assume h: "set (numbers result) \<subseteq> stored_value ` set tokens"
      and p: "parse_range_loop tokens start end_index parent_priority result = Inr r"
    show "set (numbers r) \<subseteq> stored_value ` set tokens"
    proof (cases "consumed_tokens result < end_index - start + 1")
      case False
      with p have "r = result" by (subst (asm) parse_range_loop.simps) simp
      with h show ?thesis by simp
    next
      case True
      with p obtain t where t: "token_at tokens (start + consumed_tokens result) = Inr t"
        by (subst (asm) parse_range_loop.simps) (auto split: sum.splits)
      with p True obtain op where op: "parse_operator t = Inr op"
        by (subst (asm) parse_range_loop.simps) (auto split: sum.splits)
      show ?thesis
      proof (cases "priority_value (get_priority op) \<le> priority_value parent_priority")
        case stop: True
        with p True t op have "r = result" by (subst (asm) parse_range_loop.simps) simp
        with h show ?thesis by simp
      next
        case go: False
        with p True t op obtain next_operand where
          next_operand: "parse_range tokens (start + (consumed_tokens result + 1)) end_index
             (get_priority op) = Inr next_operand"
          and loop: "parse_range_loop tokens start end_index parent_priority
             (create_two_operand_expression result op next_operand) = Inr r"
          by (subst (asm) parse_range_loop.simps) (auto split: sum.splits)
        from "2"(1)[OF True t op go] next_operand
        have "set (numbers next_operand) \<subseteq> stored_value ` set tokens" by blast
        with h have "set (numbers (create_two_operand_expression result op next_operand))
            \<subseteq> stored_value ` set tokens"
          by (simp add: numbers_create)
        with "2"(2)[OF True t op go next_operand] loop show ?thesis by blast
      qed
    qed
  qed
next
  case (3 tokens start end_index)
  show ?case
  proof (intro allI impI)
    fix r
    assume p: "parse_operand tokens start end_index = Inr r"
    then obtain t where t: "token_at tokens start = Inr t"
      by (subst (asm) parse_operand.simps) (auto split: sum.splits)
    show "set (numbers r) \<subseteq> stored_value ` set tokens"
    proof (cases "type t")
      case T_number
      with p t have "r = Number (stored_value t)"
        by (subst (asm) parse_operand.simps) (simp add: token_value_def)
      with token_at_member[OF t] show ?thesis by simp
    next
      case T_opening_parenthesis
      with p t have "parse_parentheses tokens start end_index = Inr r"
        by (subst (asm) parse_operand.simps) simp
      with "3"(1)[OF t T_opening_parenthesis] show ?thesis by blast
    next
      case T_closing_parenthesis
      with p t show ?thesis by (subst (asm) parse_operand.simps) simp
    next
      case T_multiply
      with p t show ?thesis by (subst (asm) parse_operand.simps) simp
    next
      case T_divide
      with p t show ?thesis by (subst (asm) parse_operand.simps) simp
    next
      case T_plus
      with p t show ?thesis by (subst (asm) parse_operand.simps) simp
    next
      case T_minus
      with p t have ne: "start \<noteq> end_index"
        by (subst (asm) parse_operand.simps) (auto split: if_splits)
      with p t T_minus obtain content where
        content: "parse_operand tokens (start + 1) end_index = Inr content"
        and r: "r = Negative content"
        by (subst (asm) parse_operand.simps) (auto split: sum.splits)
      from "3"(2)[OF t T_minus ne] content show ?thesis by (simp add: r)
    qed
  qed
next
  case (4 tokens start end_index)
  show ?case
  proof (intro allI impI)
    fix r
    assume p: "parse_parentheses tokens start end_index = Inr r"
    then obtain c where c: "find_closing_parenthesis tokens (start + 1) end_index = Inr c"
      by (subst (asm) parse_parentheses.simps) (auto split: sum.splits)
    with p have c1: "c \<noteq> - 1"
      by (subst (asm) parse_parentheses.simps) (auto split: if_splits sum.splits)
    from p c c1 have c2: "c \<noteq> start + 1"
      by (subst (asm) parse_parentheses.simps) (auto split: if_splits sum.splits)
    with p c c1 obtain content where
      content: "parse_range tokens (start + 1) (c - 1) P_lowest = Inr content"
      and r: "r = Parentheses content"
      by (subst (asm) parse_parentheses.simps) (auto split: sum.splits)
    from "4"[OF c c1 c2] content show "set (numbers r) \<subseteq> stored_value ` set tokens"
      by (simp add: r)
  qed
qed

lemma is_double_parse:
  assumes "parse formula = Inr e"
  shows "\<forall>v \<in> set (numbers e). is_double v"
proof -
  from assms obtain tokens where t: "tokenize formula = Inr tokens"
    and p: "parse_range tokens 0 (int (length tokens) - 1) P_lowest = Inr e"
    by (auto simp: parse_def split: sum.splits if_splits)
  from is_double_tokenize_loop[of formula 0 "[]" 0 "[]" tokens] t
  have "\<forall>t \<in> set tokens. is_double (stored_value t)" by (simp add: tokenize_def)
  moreover from parse_range_numbers p have "set (numbers e) \<subseteq> stored_value ` set tokens"
    by blast
  ultimately show ?thesis by auto
qed

text \<open>
  C8. \<open>calc\<close> is a total function from expressions to doubles, defined by recursion on the
  expression: a number gives its value, a negation gives \<open>-1\<close> times the value of its
  operand, which is that value with the other sign whenever it is a double, and the four
  binary nodes apply the arithmetic of doubles to the values of their operands. A
  division whose divisor is zero gives an infinity or a NaN. \<open>calculate\<close> fails exactly
  when \<open>parse\<close> fails, and with the same error; the numbers of a parsed expression and
  its value are doubles.
\<close>

theorem evaluation_never_fails:
  "(\<forall>v. calc (Number v) = v)
   \<and> (\<forall>content. calc (Negative content) = dmul (Finite True 1) (calc content))
   \<and> (\<forall>content. is_double (calc content) \<longrightarrow> calc (Negative content) = dneg (calc content))
   \<and> (\<forall>left right.
         calc (Add left right) = dadd (calc left) (calc right)
         \<and> calc (Subtract left right) = dsub (calc left) (calc right)
         \<and> calc (Multiply left right) = dmul (calc left) (calc right)
         \<and> calc (Divide left right) = ddiv (calc left) (calc right))
   \<and> (\<forall>left right.
         is_zero (calc right) \<longrightarrow>
         is_infinite (calc (Divide left right)) \<or> calc (Divide left right) = NaN)
   \<and> (\<forall>formula.
         calculate formula = (case parse formula of Inl e \<Rightarrow> Inl e | Inr e \<Rightarrow> Inr (calc e)))
   \<and> (\<forall>formula e.
         parse formula = Inr e \<longrightarrow>
         (\<forall>v \<in> set (numbers e). is_double v) \<and> is_double (calc e)
         \<and> calculate formula = Inr (calc e))
   \<and> calculate ''1 / (1 - 1)'' = Inr (Infinity False)
   \<and> calculate ''(1 - 1) / (1 - 1)'' = Inr NaN"
proof (intro conjI allI impI ballI)
  fix content
  assume "is_double (calc content)"
  then show "calc (Negative content) = dneg (calc content)" by (simp add: minus_one_times)
next
  fix left right
  assume "is_zero (calc right)"
  then show "is_infinite (calc (Divide left right)) \<or> calc (Divide left right) = NaN"
    using division_by_zero[of "calc right" "calc left"] by simp
next
  fix formula
  show "calculate formula = (case parse formula of Inl e \<Rightarrow> Inl e | Inr e \<Rightarrow> Inr (calc e))"
    by (simp add: calculate_def)
next
  fix formula e v
  assume "parse formula = Inr e" "v \<in> set (numbers e)"
  then show "is_double v" using is_double_parse by blast
next
  fix formula e
  assume p: "parse formula = Inr e"
  from is_double_parse[OF p] show "is_double (calc e)" by (rule is_double_calc)
  from p show "calculate formula = Inr (calc e)" by (simp add: calculate_def)
next
  show "calculate ''1 / (1 - 1)'' = Inr (Infinity False)" by (simp add: run_defs)
next
  show "calculate ''(1 - 1) / (1 - 1)'' = Inr NaN" by (simp add: run_defs)
qed simp_all

theorem evaluation_never_fails_witness:
  "calculate ''-(2 - 2) / (1 - 1)'' = Inr NaN
   \<and> calc (Negative (Number (Finite False 5))) = Finite True 5
   \<and> calc (Divide (Number (Finite True 3)) (Number (Finite True 0))) = Infinity False"
proof -
  let ?e = "Divide (Negative (Parentheses (Subtract (Number (Finite False 2)) (Number (Finite False 2)))))
              (Parentheses (Subtract (Number (Finite False 1)) (Number (Finite False 1))))"
  have p: "parse ''-(2 - 2) / (1 - 1)'' = Inr ?e" by (simp add: run_defs)
  from evaluation_never_fails p have "calculate ''-(2 - 2) / (1 - 1)'' = Inr (calc ?e)" by blast
  then have a: "calculate ''-(2 - 2) / (1 - 1)'' = Inr NaN" by (simp add: dsub_def signed_def)
  have d: "is_double (calc (Number (Finite False 5)))" by simp
  from evaluation_never_fails d
  have "calc (Negative (Number (Finite False 5))) = dneg (calc (Number (Finite False 5)))" by blast
  then have b: "calc (Negative (Number (Finite False 5))) = Finite True 5" by simp
  have z: "is_zero (calc (Number (Finite True 0)))" by simp
  from evaluation_never_fails z
  have "is_infinite (calc (Divide (Number (Finite True 3)) (Number (Finite True 0))))
        \<or> calc (Divide (Number (Finite True 3)) (Number (Finite True 0))) = NaN"
    by blast
  then have c: "calc (Divide (Number (Finite True 3)) (Number (Finite True 0))) = Infinity False"
    by simp
  from a b c show ?thesis by simp
qed

end
